theory Spec2Isabelle
  imports Main "HOL-Library.Word" "HOL-Library.Monad_Syntax"
begin

section \<open>Samples, rows and row-pointer tables\<close>

text \<open>
  The embedding follows \<^verbatim>\<open>simd/arm/common/jdsample-neon.c\<close>.

  A \<^verbatim>\<open>JSAMPLE\<close> is an unsigned 8-bit value and a \<^verbatim>\<open>JDIMENSION\<close> an unsigned 32-bit
  value. A \<^verbatim>\<open>JSAMPROW\<close> points at the first byte of a row buffer; the model keeps the
  allocated buffer itself, a list whose length is the buffer's capacity (logical
  samples followed by padding). A pointer into a row is the buffer together with an
  integer offset. A \<^verbatim>\<open>JSAMPARRAY\<close> is the row-pointer table as the callee sees it:
  index \<open>k\<close> (which may be negative, the code reads \<^verbatim>\<open>input_data[inrow - 1]\<close>) gives
  the buffer of row \<open>k\<close>, and \<open>None\<close> where the table has no row. The input table and
  the output table are separate values and distinct output indices are distinct
  buffers, as the sample arrays of the surrounding codec are.

  Every access outside a buffer or a table is undefined behaviour in C. The model
  returns \<open>None\<close> there, and \<open>None\<close> propagates to the result of the call.
\<close>

type_synonym JSAMPLE = "8 word"
type_synonym JDIMENSION = "32 word"
type_synonym JSAMPROW = "JSAMPLE list"
type_synonym JSAMPARRAY = "int \<Rightarrow> JSAMPROW option"

text \<open>
  Modelled from the spec: the macro \<^verbatim>\<open>GETJSAMPLE\<close> is declared outside this file; the
  samples are unsigned 8-bit channel values, so it reads a sample as a non-negative
  \<^verbatim>\<open>int\<close>.
\<close>

definition GETJSAMPLE :: "JSAMPLE \<Rightarrow> int" where
  "GETJSAMPLE v = uint v"

text \<open>\<^verbatim>\<open>p[k]\<close> as an rvalue and \<^verbatim>\<open>p[k] = v\<close>.\<close>

definition load_u8 :: "JSAMPROW \<Rightarrow> int \<Rightarrow> JSAMPLE option" where
  "load_u8 p k = (if 0 \<le> k \<and> k < int (length p) then Some (p ! nat k) else None)"

definition store_u8 :: "JSAMPROW \<Rightarrow> int \<Rightarrow> JSAMPLE \<Rightarrow> JSAMPROW option" where
  "store_u8 p k v = (if 0 \<le> k \<and> k < int (length p) then Some (p[nat k := v]) else None)"

section \<open>The NEON intrinsics used by the kernels\<close>

text \<open>
  A vector register is the list of its lanes, lane 0 first. The arithmetic on 16-bit
  lanes wraps modulo \<open>2 ^ 16\<close>, as the instructions do.
\<close>

type_synonym uint8x8_t = "8 word list"
type_synonym uint8x16_t = "8 word list"
type_synonym uint16x8_t = "16 word list"
type_synonym uint8x16x2_t = "uint8x16_t \<times> uint8x16_t"

definition vdupq_n_u16 :: "16 word \<Rightarrow> uint16x8_t" where
  "vdupq_n_u16 v = replicate 8 v"

definition vdup_n_u8 :: "8 word \<Rightarrow> uint8x8_t" where
  "vdup_n_u8 v = replicate 8 v"

text \<open>Load 16 consecutive bytes starting at \<open>p + k\<close>.\<close>

definition vld1q_u8 :: "JSAMPROW \<Rightarrow> int \<Rightarrow> uint8x16_t option" where
  "vld1q_u8 p k =
     (if 0 \<le> k \<and> k + 16 \<le> int (length p) then Some (take 16 (drop (nat k) p)) else None)"

definition vget_low_u8 :: "uint8x16_t \<Rightarrow> uint8x8_t" where
  "vget_low_u8 v = take 8 v"

definition vget_high_u8 :: "uint8x16_t \<Rightarrow> uint8x8_t" where
  "vget_high_u8 v = drop 8 v"

text \<open>Widen each lane to 16 bits.\<close>

definition vmovl_u8 :: "uint8x8_t \<Rightarrow> uint16x8_t" where
  "vmovl_u8 v = map ucast v"

text \<open>Widening multiply-accumulate: \<open>a + b * c\<close> with \<open>b\<close>, \<open>c\<close> widened to 16 bits.\<close>

definition vmlal_u8 :: "uint16x8_t \<Rightarrow> uint8x8_t \<Rightarrow> uint8x8_t \<Rightarrow> uint16x8_t" where
  "vmlal_u8 a b c = map (\<lambda>(x, y, z). x + ucast y * ucast z) (zip a (zip b c))"

text \<open>Multiply-accumulate on 16-bit lanes: \<open>a + b * c\<close>.\<close>

definition vmlaq_u16 :: "uint16x8_t \<Rightarrow> uint16x8_t \<Rightarrow> uint16x8_t \<Rightarrow> uint16x8_t" where
  "vmlaq_u16 a b c = map (\<lambda>(x, y, z). x + y * z) (zip a (zip b c))"

definition vaddq_u16 :: "uint16x8_t \<Rightarrow> uint16x8_t \<Rightarrow> uint16x8_t" where
  "vaddq_u16 a b = map (\<lambda>(x, y). x + y) (zip a b)"

text \<open>Shift right by \<open>n\<close> and narrow: the low 8 bits of \<open>x >> n\<close>.\<close>

definition vshrn_n_u16 :: "uint16x8_t \<Rightarrow> nat \<Rightarrow> uint8x8_t" where
  "vshrn_n_u16 a n = map (\<lambda>x. ucast (drop_bit n x)) a"

text \<open>
  Rounding shift right by \<open>n\<close> and narrow: the low 8 bits of \<open>(x + 2 ^ (n - 1)) >> n\<close>,
  where the sum is formed at full precision (it does not wrap at 16 bits).
\<close>

definition vrshrn_n_u16 :: "uint16x8_t \<Rightarrow> nat \<Rightarrow> uint8x8_t" where
  "vrshrn_n_u16 a n = map (\<lambda>x. word_of_nat (drop_bit n (unat x + 2 ^ (n - 1)))) a"

definition vcombine_u8 :: "uint8x8_t \<Rightarrow> uint8x8_t \<Rightarrow> uint8x16_t" where
  "vcombine_u8 lo hi = lo @ hi"

text \<open>Write the bytes \<open>bs\<close> to \<open>p + k\<close>, \<open>p + k + 1\<close>, ...\<close>

definition store_bytes :: "JSAMPROW \<Rightarrow> int \<Rightarrow> JSAMPLE list \<Rightarrow> JSAMPROW option" where
  "store_bytes p k bs =
     (if 0 \<le> k \<and> k + int (length bs) \<le> int (length p)
      then Some (take (nat k) p @ bs @ drop (nat k + length bs) p) else None)"

fun interleave :: "'a list \<Rightarrow> 'a list \<Rightarrow> 'a list" where
  "interleave (a # as) (b # bs) = a # b # interleave as bs"
| "interleave _ _ = []"

definition vst1q_u8 :: "JSAMPROW \<Rightarrow> int \<Rightarrow> uint8x16_t \<Rightarrow> JSAMPROW option" where
  "vst1q_u8 p k v = store_bytes p k v"

text \<open>
  Interleaving store of two registers: \<open>p[k + 2 j] = val[0][j]\<close> and
  \<open>p[k + 2 j + 1] = val[1][j]\<close>.
\<close>

definition vst2q_u8 :: "JSAMPROW \<Rightarrow> int \<Rightarrow> uint8x16x2_t \<Rightarrow> JSAMPROW option" where
  "vst2q_u8 p k v = store_bytes p k (interleave (fst v) (snd v))"

section \<open>\<^verbatim>\<open>jsimd_h2v2_fancy_upsample_neon\<close>\<close>

definition seven_u16 :: uint16x8_t where "seven_u16 = vdupq_n_u16 7"
definition three_u8 :: uint8x8_t where "three_u8 = vdup_n_u8 3"
definition three_u16 :: uint16x8_t where "three_u16 = vdupq_n_u16 3"
definition one_u16 :: uint16x8_t where "one_u16 = vdupq_n_u16 1"

text \<open>
  Case 1 and case 2 of the source, the first and the last pixel of an output row:
  \<^verbatim>\<open>(JSAMPLE)((colsum * 4 + 8) >> 4)\<close> and \<^verbatim>\<open>(JSAMPLE)((colsum * 4 + 7) >> 4)\<close> with
  \<^verbatim>\<open>colsum = GETJSAMPLE(r1) * 3 + GETJSAMPLE(r0)\<close>. The arithmetic is on C \<^verbatim>\<open>int\<close>;
  the operands are below 256, so it cannot overflow, and the cast keeps the low
  8 bits.
\<close>

definition h2v2_first_pixel :: "JSAMPLE \<Rightarrow> JSAMPLE \<Rightarrow> JSAMPLE" where
  "h2v2_first_pixel r1 r0 =
     (let s0colsum = GETJSAMPLE r1 * 3 + GETJSAMPLE r0
      in word_of_int (drop_bit 4 (s0colsum * 4 + 8)))"

definition h2v2_last_pixel :: "JSAMPLE \<Rightarrow> JSAMPLE \<Rightarrow> JSAMPLE" where
  "h2v2_last_pixel r1 r0 =
     (let s1colsum = GETJSAMPLE r1 * 3 + GETJSAMPLE r0
      in word_of_int (drop_bit 4 (s1colsum * 4 + 7)))"

text \<open>
  The vector block of the general case. The source writes it twice with the same
  statements, before the column loop (lines 127 to 176) and inside it (lines 193 to
  238); the model writes it once, in the source's three steps.
\<close>

record colsums =
  s0colsum0_l :: uint16x8_t
  s0colsum0_h :: uint16x8_t
  s0colsum1_l :: uint16x8_t
  s0colsum1_h :: uint16x8_t
  s1colsum0_l :: uint16x8_t
  s1colsum0_h :: uint16x8_t
  s1colsum1_l :: uint16x8_t
  s1colsum1_h :: uint16x8_t

text \<open>Step 1: blend samples vertically in columns s0 and s1.\<close>

definition h2v2_step1 ::
  "uint8x16_t \<Rightarrow> uint8x16_t \<Rightarrow> uint8x16_t \<Rightarrow> uint8x16_t \<Rightarrow> uint8x16_t \<Rightarrow> uint8x16_t \<Rightarrow> colsums"
where
  "h2v2_step1 s0r0 s0r1 s0r2 s1r0 s1r1 s1r2 =
     \<lparr> s0colsum0_l = vmlal_u8 (vmovl_u8 (vget_low_u8 s0r0)) (vget_low_u8 s0r1) three_u8,
       s0colsum0_h = vmlal_u8 (vmovl_u8 (vget_high_u8 s0r0)) (vget_high_u8 s0r1) three_u8,
       s0colsum1_l = vmlal_u8 (vmovl_u8 (vget_low_u8 s0r2)) (vget_low_u8 s0r1) three_u8,
       s0colsum1_h = vmlal_u8 (vmovl_u8 (vget_high_u8 s0r2)) (vget_high_u8 s0r1) three_u8,
       s1colsum0_l = vmlal_u8 (vmovl_u8 (vget_low_u8 s1r0)) (vget_low_u8 s1r1) three_u8,
       s1colsum0_h = vmlal_u8 (vmovl_u8 (vget_high_u8 s1r0)) (vget_high_u8 s1r1) three_u8,
       s1colsum1_l = vmlal_u8 (vmovl_u8 (vget_low_u8 s1r2)) (vget_low_u8 s1r1) three_u8,
       s1colsum1_h = vmlal_u8 (vmovl_u8 (vget_high_u8 s1r2)) (vget_high_u8 s1r1) three_u8 \<rparr>"

record blends =
  output0_p1_l :: uint16x8_t
  output0_p1_h :: uint16x8_t
  output0_p2_l :: uint16x8_t
  output0_p2_h :: uint16x8_t
  output1_p1_l :: uint16x8_t
  output1_p1_h :: uint16x8_t
  output1_p2_l :: uint16x8_t
  output1_p2_h :: uint16x8_t

text \<open>
  Step 2: blend the already-blended columns, then add the ordered dithering bias to
  the odd pixel values (the \<open>p1\<close> registers).
\<close>

definition h2v2_step2 :: "colsums \<Rightarrow> blends" where
  "h2v2_step2 cs =
     \<lparr> output0_p1_l = vaddq_u16 (vmlaq_u16 (s1colsum0_l cs) (s0colsum0_l cs) three_u16) seven_u16,
       output0_p1_h = vaddq_u16 (vmlaq_u16 (s1colsum0_h cs) (s0colsum0_h cs) three_u16) seven_u16,
       output0_p2_l = vmlaq_u16 (s0colsum0_l cs) (s1colsum0_l cs) three_u16,
       output0_p2_h = vmlaq_u16 (s0colsum0_h cs) (s1colsum0_h cs) three_u16,
       output1_p1_l = vaddq_u16 (vmlaq_u16 (s1colsum1_l cs) (s0colsum1_l cs) three_u16) seven_u16,
       output1_p1_h = vaddq_u16 (vmlaq_u16 (s1colsum1_h cs) (s0colsum1_h cs) three_u16) seven_u16,
       output1_p2_l = vmlaq_u16 (s0colsum1_l cs) (s1colsum1_l cs) three_u16,
       output1_p2_h = vmlaq_u16 (s0colsum1_h cs) (s1colsum1_h cs) three_u16 \<rparr>"

text \<open>Right-shift by 4 (divide by 16), narrow to 8-bit and combine.\<close>

definition h2v2_output_pixels0 :: "blends \<Rightarrow> uint8x16x2_t" where
  "h2v2_output_pixels0 b =
     (vcombine_u8 (vshrn_n_u16 (output0_p1_l b) 4) (vshrn_n_u16 (output0_p1_h b) 4),
      vcombine_u8 (vrshrn_n_u16 (output0_p2_l b) 4) (vrshrn_n_u16 (output0_p2_h b) 4))"

definition h2v2_output_pixels1 :: "blends \<Rightarrow> uint8x16x2_t" where
  "h2v2_output_pixels1 b =
     (vcombine_u8 (vshrn_n_u16 (output1_p1_l b) 4) (vshrn_n_u16 (output1_p1_h b) 4),
      vcombine_u8 (vrshrn_n_u16 (output1_p2_l b) 4) (vrshrn_n_u16 (output1_p2_h b) 4))"

text \<open>
  One vector block: the six loads at \<open>inptr + k0\<close> (columns s0) and \<open>inptr + k1\<close>
  (columns s1), steps 1 and 2, and the two interleaving stores at \<open>outptr + ko\<close>.
\<close>

definition h2v2_block ::
  "JSAMPROW \<Rightarrow> JSAMPROW \<Rightarrow> JSAMPROW \<Rightarrow> int \<Rightarrow> int \<Rightarrow> JSAMPROW \<Rightarrow> JSAMPROW \<Rightarrow> int
     \<Rightarrow> (JSAMPROW \<times> JSAMPROW) option"
where
  "h2v2_block inptr0 inptr1 inptr2 k0 k1 outptr0 outptr1 ko =
     do {
       s0r0 \<leftarrow> vld1q_u8 inptr0 k0;
       s0r1 \<leftarrow> vld1q_u8 inptr1 k0;
       s0r2 \<leftarrow> vld1q_u8 inptr2 k0;
       s1r0 \<leftarrow> vld1q_u8 inptr0 k1;
       s1r1 \<leftarrow> vld1q_u8 inptr1 k1;
       s1r2 \<leftarrow> vld1q_u8 inptr2 k1;
       let b = h2v2_step2 (h2v2_step1 s0r0 s0r1 s0r2 s1r0 s1r1 s1r2);
       outptr0' \<leftarrow> vst2q_u8 outptr0 ko (h2v2_output_pixels0 b);
       outptr1' \<leftarrow> vst2q_u8 outptr1 ko (h2v2_output_pixels1 b);
       Some (outptr0', outptr1')
     }"

text \<open>
  The column loop \<^verbatim>\<open>for (unsigned colctr = 16; colctr < downsampled_width; colctr += 16)\<close>.
  The counter is an unsigned 32-bit value: \<open>colctr + 16\<close> and \<open>2 * colctr\<close> wrap. The
  result is \<open>None\<close> when an access is out of bounds or the loop does not end.
\<close>

partial_function (option) h2v2_cols ::
  "JDIMENSION \<Rightarrow> JSAMPROW \<Rightarrow> JSAMPROW \<Rightarrow> JSAMPROW \<Rightarrow> JDIMENSION \<Rightarrow> JSAMPROW \<Rightarrow> JSAMPROW
     \<Rightarrow> (JSAMPROW \<times> JSAMPROW) option"
where
  "h2v2_cols downsampled_width inptr0 inptr1 inptr2 colctr outptr0 outptr1 =
     (if colctr < downsampled_width then
        do {
          outs \<leftarrow> h2v2_block inptr0 inptr1 inptr2 (uint colctr - 1) (uint colctr)
                    outptr0 outptr1 (uint (2 * colctr) - 1);
          h2v2_cols downsampled_width inptr0 inptr1 inptr2 (colctr + 16) (fst outs) (snd outs)
        }
      else Some (outptr0, outptr1))"

declare h2v2_cols.simps [code]

text \<open>The body of the \<^verbatim>\<open>while\<close> loop for one input row: two output rows.\<close>

definition h2v2_rowpair ::
  "JDIMENSION \<Rightarrow> JSAMPROW \<Rightarrow> JSAMPROW \<Rightarrow> JSAMPROW \<Rightarrow> JSAMPROW \<Rightarrow> JSAMPROW
     \<Rightarrow> (JSAMPROW \<times> JSAMPROW) option"
where
  "h2v2_rowpair downsampled_width inptr0 inptr1 inptr2 outptr0 outptr1 =
     do {
       a1 \<leftarrow> load_u8 inptr1 0;
       a0 \<leftarrow> load_u8 inptr0 0;
       outptr0 \<leftarrow> store_u8 outptr0 0 (h2v2_first_pixel a1 a0);
       a2 \<leftarrow> load_u8 inptr2 0;
       outptr1 \<leftarrow> store_u8 outptr1 0 (h2v2_first_pixel a1 a2);
       outs \<leftarrow> h2v2_block inptr0 inptr1 inptr2 0 1 outptr0 outptr1 1;
       outs \<leftarrow> h2v2_cols downsampled_width inptr0 inptr1 inptr2 16 (fst outs) (snd outs);
       z1 \<leftarrow> load_u8 inptr1 (uint (downsampled_width - 1));
       z0 \<leftarrow> load_u8 inptr0 (uint (downsampled_width - 1));
       outptr0 \<leftarrow> store_u8 (fst outs) (uint (2 * downsampled_width - 1)) (h2v2_last_pixel z1 z0);
       z2 \<leftarrow> load_u8 inptr2 (uint (downsampled_width - 1));
       outptr1 \<leftarrow> store_u8 (snd outs) (uint (2 * downsampled_width - 1)) (h2v2_last_pixel z1 z2);
       Some (outptr0, outptr1)
     }"

text \<open>
  The \<^verbatim>\<open>while (outrow < max_v_samp_factor)\<close> loop. \<open>inrow\<close> and \<open>outrow\<close> are C \<^verbatim>\<open>int\<close>s;
  incrementing one past \<^verbatim>\<open>INT_MAX\<close> is undefined behaviour and gives \<open>None\<close>. The
  output table after an iteration holds the two rows just written.
\<close>

definition INT_MAX :: int where
  "INT_MAX = 2147483647"

function h2v2_rows ::
  "int \<Rightarrow> JDIMENSION \<Rightarrow> JSAMPARRAY \<Rightarrow> int \<Rightarrow> int \<Rightarrow> JSAMPARRAY \<Rightarrow> JSAMPARRAY option"
where
  "h2v2_rows max_v_samp_factor downsampled_width input_data inrow outrow output_data =
     (if outrow < max_v_samp_factor then
        do {
          inptr0 \<leftarrow> input_data (inrow - 1);
          inptr1 \<leftarrow> input_data inrow;
          inptr2 \<leftarrow> input_data (inrow + 1);
          outptr0 \<leftarrow> output_data outrow;
          outptr1 \<leftarrow> output_data (outrow + 1);
          if outrow + 2 > INT_MAX then None
          else do {
            outs \<leftarrow> h2v2_rowpair downsampled_width inptr0 inptr1 inptr2 outptr0 outptr1;
            if inrow + 1 > INT_MAX then None
            else h2v2_rows max_v_samp_factor downsampled_width input_data (inrow + 1)
                   (outrow + 2) (output_data(outrow \<mapsto> fst outs, outrow + 1 \<mapsto> snd outs))
          }
        }
      else Some output_data)"
  by pat_completeness auto
termination
  by (relation "measure (\<lambda>(m, w, i, inrow, outrow, out). nat (m - outrow))") auto

definition jsimd_h2v2_fancy_upsample_neon ::
  "int \<Rightarrow> JDIMENSION \<Rightarrow> JSAMPARRAY \<Rightarrow> JSAMPARRAY \<Rightarrow> JSAMPARRAY option"
where
  "jsimd_h2v2_fancy_upsample_neon max_v_samp_factor downsampled_width input_data output_data =
     h2v2_rows max_v_samp_factor downsampled_width input_data 0 0 output_data"

section \<open>\<^verbatim>\<open>jsimd_h1v2_fancy_upsample_neon\<close>\<close>

text \<open>
  The arithmetic of one iteration of the column loop (lines 327 to 343): blend the
  samples vertically, add the ordered dithering bias to the even output row, shift
  right by 2, narrow and combine. The result is
  \<open>(output_pixels0, output_pixels1)\<close>.
\<close>

definition h1v2_pixels :: "uint8x16_t \<Rightarrow> uint8x16_t \<Rightarrow> uint8x16_t \<Rightarrow> uint8x16_t \<times> uint8x16_t"
where
  "h1v2_pixels r0 r1 r2 =
     (let colsum0_l = vmlal_u8 (vmovl_u8 (vget_low_u8 r0)) (vget_low_u8 r1) three_u8;
          colsum0_h = vmlal_u8 (vmovl_u8 (vget_high_u8 r0)) (vget_high_u8 r1) three_u8;
          colsum1_l = vmlal_u8 (vmovl_u8 (vget_low_u8 r2)) (vget_low_u8 r1) three_u8;
          colsum1_h = vmlal_u8 (vmovl_u8 (vget_high_u8 r2)) (vget_high_u8 r1) three_u8;
          colsum0_l = vaddq_u16 colsum0_l one_u16;
          colsum0_h = vaddq_u16 colsum0_h one_u16;
          output_pixels0 = vcombine_u8 (vshrn_n_u16 colsum0_l 2) (vshrn_n_u16 colsum0_h 2);
          output_pixels1 = vcombine_u8 (vrshrn_n_u16 colsum1_l 2) (vrshrn_n_u16 colsum1_h 2)
      in (output_pixels0, output_pixels1))"

text \<open>
  The column loop \<^verbatim>\<open>for (unsigned colctr = 0; colctr < downsampled_width; colctr += 16)\<close>.
\<close>

partial_function (option) h1v2_cols ::
  "JDIMENSION \<Rightarrow> JSAMPROW \<Rightarrow> JSAMPROW \<Rightarrow> JSAMPROW \<Rightarrow> JDIMENSION \<Rightarrow> JSAMPROW \<Rightarrow> JSAMPROW
     \<Rightarrow> (JSAMPROW \<times> JSAMPROW) option"
where
  "h1v2_cols downsampled_width inptr0 inptr1 inptr2 colctr outptr0 outptr1 =
     (if colctr < downsampled_width then
        do {
          r0 \<leftarrow> vld1q_u8 inptr0 (uint colctr);
          r1 \<leftarrow> vld1q_u8 inptr1 (uint colctr);
          r2 \<leftarrow> vld1q_u8 inptr2 (uint colctr);
          let px = h1v2_pixels r0 r1 r2;
          outptr0' \<leftarrow> vst1q_u8 outptr0 (uint colctr) (fst px);
          outptr1' \<leftarrow> vst1q_u8 outptr1 (uint colctr) (snd px);
          h1v2_cols downsampled_width inptr0 inptr1 inptr2 (colctr + 16) outptr0' outptr1'
        }
      else Some (outptr0, outptr1))"

declare h1v2_cols.simps [code]

function h1v2_rows ::
  "int \<Rightarrow> JDIMENSION \<Rightarrow> JSAMPARRAY \<Rightarrow> int \<Rightarrow> int \<Rightarrow> JSAMPARRAY \<Rightarrow> JSAMPARRAY option"
where
  "h1v2_rows max_v_samp_factor downsampled_width input_data inrow outrow output_data =
     (if outrow < max_v_samp_factor then
        do {
          inptr0 \<leftarrow> input_data (inrow - 1);
          inptr1 \<leftarrow> input_data inrow;
          inptr2 \<leftarrow> input_data (inrow + 1);
          outptr0 \<leftarrow> output_data outrow;
          outptr1 \<leftarrow> output_data (outrow + 1);
          if outrow + 2 > INT_MAX \<or> inrow + 1 > INT_MAX then None
          else do {
            outs \<leftarrow> h1v2_cols downsampled_width inptr0 inptr1 inptr2 0 outptr0 outptr1;
            h1v2_rows max_v_samp_factor downsampled_width input_data (inrow + 1)
              (outrow + 2) (output_data(outrow \<mapsto> fst outs, outrow + 1 \<mapsto> snd outs))
          }
        }
      else Some output_data)"
  by pat_completeness auto
termination
  by (relation "measure (\<lambda>(m, w, i, inrow, outrow, out). nat (m - outrow))") auto

definition jsimd_h1v2_fancy_upsample_neon ::
  "int \<Rightarrow> JDIMENSION \<Rightarrow> JSAMPARRAY \<Rightarrow> JSAMPARRAY \<Rightarrow> JSAMPARRAY option"
where
  "jsimd_h1v2_fancy_upsample_neon max_v_samp_factor downsampled_width input_data output_data =
     h1v2_rows max_v_samp_factor downsampled_width input_data 0 0 output_data"

declare h2v2_rows.simps [simp del]
declare h1v2_rows.simps [simp del]

section \<open>Vocabulary of the specification\<close>

text \<open>
  The vertical blend \<open>3 * r1 + r0\<close> of a sample with its vertical neighbour, as an
  integer, and the same blend as the 16-bit lane the vector code computes.
\<close>

definition colsum :: "JSAMPLE \<Rightarrow> JSAMPLE \<Rightarrow> int" where
  "colsum r1 r0 = 3 * GETJSAMPLE r1 + GETJSAMPLE r0"

definition wcolsum :: "JSAMPLE \<Rightarrow> JSAMPLE \<Rightarrow> 16 word" where
  "wcolsum r1 r0 = ucast r0 + ucast r1 * 3"

text \<open>
  The value of output pixel \<open>j\<close> in the general case, from the current row \<open>cur\<close> and
  the neighbouring row \<open>nb\<close>: the column \<open>j div 2\<close> that contains the pixel weighs 3,
  the adjacent column on the pixel's side weighs 1; odd pixels get the bias 7 and a
  truncating shift, even pixels the bias 8.
\<close>

definition h2v2_interior :: "JSAMPROW \<Rightarrow> JSAMPROW \<Rightarrow> nat \<Rightarrow> int" where
  "h2v2_interior cur nb j =
     (if odd j
      then (3 * colsum (cur ! (j div 2)) (nb ! (j div 2))
              + colsum (cur ! (j div 2 + 1)) (nb ! (j div 2 + 1)) + 7) div 16
      else (3 * colsum (cur ! (j div 2)) (nb ! (j div 2))
              + colsum (cur ! (j div 2 - 1)) (nb ! (j div 2 - 1)) + 8) div 16)"

text \<open>Output pixel \<open>j\<close> of a row of logical width \<open>2 * w\<close>, with the two boundary cases.\<close>

definition h2v2_ref_pixel :: "nat \<Rightarrow> JSAMPROW \<Rightarrow> JSAMPROW \<Rightarrow> nat \<Rightarrow> int" where
  "h2v2_ref_pixel w cur nb j =
     (if j = 0 then (colsum (cur ! 0) (nb ! 0) * 4 + 8) div 16
      else if j = 2 * w - 1 then (colsum (cur ! (w - 1)) (nb ! (w - 1)) * 4 + 7) div 16
      else h2v2_interior cur nb j)"

text \<open>The two output pixels of column \<open>c\<close> in the h1v2 kernel.\<close>

definition h1v2_top :: "JSAMPROW \<Rightarrow> JSAMPROW \<Rightarrow> nat \<Rightarrow> int" where
  "h1v2_top cur nb c = (colsum (cur ! c) (nb ! c) + 1) div 4"

definition h1v2_bottom :: "JSAMPROW \<Rightarrow> JSAMPROW \<Rightarrow> nat \<Rightarrow> int" where
  "h1v2_bottom cur nb c = (colsum (cur ! c) (nb ! c) + 2) div 4"

subsection \<open>Valid calls\<close>

text \<open>
  The bytes a call touches. The h2v2 kernel loads 16 bytes at offsets 0 and 1 and then
  at \<open>colctr - 1\<close> and \<open>colctr\<close> for every multiple \<open>colctr\<close> of 16 below the width; it
  stores 32 bytes at offset 1 and at \<open>2 * colctr - 1\<close>, and one byte at
  \<open>2 * width - 1\<close>. The h1v2 kernel loads and stores 16 bytes at every multiple of 16
  below the width.
\<close>

definition h2v2_in_cap :: "nat \<Rightarrow> nat" where
  "h2v2_in_cap w = (if w \<le> 16 then 17 else 16 * ((w + 15) div 16))"

definition h2v2_out_cap :: "nat \<Rightarrow> nat" where
  "h2v2_out_cap w = (if w \<le> 16 then 33 else max (2 * w) (32 * ((w + 15) div 16) - 1))"

definition h1v2_cap :: "nat \<Rightarrow> nat" where
  "h1v2_cap w = 16 * ((w + 15) div 16)"

definition row_ok :: "JSAMPARRAY \<Rightarrow> nat \<Rightarrow> int \<Rightarrow> bool" where
  "row_ok tbl cap k = (case tbl k of None \<Rightarrow> False | Some row \<Rightarrow> cap \<le> length row)"

text \<open>
  A valid call: the width is at least 1 and \<open>2 * width\<close> is representable, the row
  counters stay below \<^verbatim>\<open>INT_MAX\<close>, and for every input row \<open>i\<close> the call processes
  (\<open>0 \<le> i\<close> and \<open>2 * i < max_v_samp_factor\<close>) the three context rows and the two output
  rows exist with the capacity above.
\<close>

definition h2v2_valid :: "int \<Rightarrow> JDIMENSION \<Rightarrow> JSAMPARRAY \<Rightarrow> JSAMPARRAY \<Rightarrow> bool" where
  "h2v2_valid max_v_samp_factor downsampled_width input_data output_data \<longleftrightarrow>
     0 < unat downsampled_width \<and> unat downsampled_width < 2 ^ 31 \<and>
     max_v_samp_factor < INT_MAX \<and>
     (\<forall>i \<in> {0 .. (max_v_samp_factor - 1) div 2}.
        row_ok input_data (h2v2_in_cap (unat downsampled_width)) (i - 1) \<and>
        row_ok input_data (h2v2_in_cap (unat downsampled_width)) i \<and>
        row_ok input_data (h2v2_in_cap (unat downsampled_width)) (i + 1) \<and>
        row_ok output_data (h2v2_out_cap (unat downsampled_width)) (2 * i) \<and>
        row_ok output_data (h2v2_out_cap (unat downsampled_width)) (2 * i + 1))"

definition h1v2_valid :: "int \<Rightarrow> JDIMENSION \<Rightarrow> JSAMPARRAY \<Rightarrow> JSAMPARRAY \<Rightarrow> bool" where
  "h1v2_valid max_v_samp_factor downsampled_width input_data output_data \<longleftrightarrow>
     unat downsampled_width + 16 \<le> 2 ^ 32 \<and>
     max_v_samp_factor < INT_MAX \<and>
     (\<forall>i \<in> {0 .. (max_v_samp_factor - 1) div 2}.
        row_ok input_data (h1v2_cap (unat downsampled_width)) (i - 1) \<and>
        row_ok input_data (h1v2_cap (unat downsampled_width)) i \<and>
        row_ok input_data (h1v2_cap (unat downsampled_width)) (i + 1) \<and>
        row_ok output_data (h1v2_cap (unat downsampled_width)) (2 * i) \<and>
        row_ok output_data (h1v2_cap (unat downsampled_width)) (2 * i + 1))"

text \<open>What a call establishes for input row \<open>i\<close>.\<close>

definition h2v2_pair_ok :: "nat \<Rightarrow> JSAMPARRAY \<Rightarrow> JSAMPARRAY \<Rightarrow> int \<Rightarrow> bool" where
  "h2v2_pair_ok w input_data out i \<longleftrightarrow>
     (\<exists>cur above below top bottom.
        input_data i = Some cur \<and> input_data (i - 1) = Some above \<and>
        input_data (i + 1) = Some below \<and>
        out (2 * i) = Some top \<and> out (2 * i + 1) = Some bottom \<and>
        2 * w \<le> length top \<and> 2 * w \<le> length bottom \<and>
        (\<forall>j < 2 * w. uint (top ! j) = h2v2_ref_pixel w cur above j) \<and>
        (\<forall>j < 2 * w. uint (bottom ! j) = h2v2_ref_pixel w cur below j))"

definition h1v2_pair_ok :: "nat \<Rightarrow> JSAMPARRAY \<Rightarrow> JSAMPARRAY \<Rightarrow> int \<Rightarrow> bool" where
  "h1v2_pair_ok w input_data out i \<longleftrightarrow>
     (\<exists>cur above below top bottom.
        input_data i = Some cur \<and> input_data (i - 1) = Some above \<and>
        input_data (i + 1) = Some below \<and>
        out (2 * i) = Some top \<and> out (2 * i + 1) = Some bottom \<and>
        w \<le> length top \<and> w \<le> length bottom \<and>
        (\<forall>j < w. uint (top ! j) = h1v2_top cur above j) \<and>
        (\<forall>j < w. uint (bottom ! j) = h1v2_bottom cur below j))"

subsection \<open>Reading samples\<close>

text \<open>
  \<open>sample tbl i c\<close> is \<open>in[i][c]\<close>; \<open>vsum tbl i k c\<close> is the vertical blend
  \<open>3 * in[i][c] + in[k][c]\<close>. \<open>output_sample res r j\<close> is pixel \<open>j\<close> of output row \<open>r\<close>
  after the call, and \<open>None\<close> if the call did not return or the pixel does not exist;
  \<open>output_row res r n\<close> is the first \<open>n\<close> pixels of that row.
\<close>

definition sample :: "JSAMPARRAY \<Rightarrow> int \<Rightarrow> nat \<Rightarrow> int" where
  "sample tbl i c = GETJSAMPLE (the (tbl i) ! c)"

definition vsum :: "JSAMPARRAY \<Rightarrow> int \<Rightarrow> int \<Rightarrow> nat \<Rightarrow> int" where
  "vsum tbl i k c = 3 * sample tbl i c + sample tbl k c"

definition output_sample :: "JSAMPARRAY option \<Rightarrow> int \<Rightarrow> nat \<Rightarrow> int option" where
  "output_sample res r j =
     (case res of None \<Rightarrow> None
      | Some out \<Rightarrow>
          (case out r of None \<Rightarrow> None
           | Some row \<Rightarrow> if j < length row then Some (GETJSAMPLE (row ! j)) else None))"

definition output_row :: "JSAMPARRAY option \<Rightarrow> int \<Rightarrow> nat \<Rightarrow> JSAMPROW option" where
  "output_row res r n =
     (case res of None \<Rightarrow> None
      | Some out \<Rightarrow>
          (case out r of None \<Rightarrow> None
           | Some row \<Rightarrow> if n \<le> length row then Some (take n row) else None))"

subsection \<open>A concrete call\<close>

text \<open>
  Width 3, one input row with its two neighbours: above \<open>[10, 20, 30]\<close>, current
  \<open>[40, 50, 60]\<close>, below \<open>[70, 80, 90]\<close>, each in a buffer of 17 bytes; two output
  buffers of 33 bytes.
\<close>

definition ex_above :: JSAMPROW where "ex_above = [10, 20, 30] @ replicate 14 0"
definition ex_cur :: JSAMPROW where "ex_cur = [40, 50, 60] @ replicate 14 0"
definition ex_below :: JSAMPROW where "ex_below = [70, 80, 90] @ replicate 14 0"

definition ex_input :: JSAMPARRAY where
  "ex_input i = (if i = - 1 then Some ex_above else if i = 0 then Some ex_cur
                 else if i = 1 then Some ex_below else None)"

definition ex_output :: JSAMPARRAY where
  "ex_output r = (if r = 0 \<or> r = 1 then Some (replicate 33 0) else None)"


definition ex_swapped :: JSAMPARRAY where
  "ex_swapped i = (if i = - 1 then Some ex_below else if i = 0 then Some ex_cur
                   else if i = 1 then Some ex_above else None)"

definition ex_flat :: JSAMPARRAY where
  "ex_flat i = (if i = - 1 \<or> i = 0 \<or> i = 1 then Some (replicate 17 200) else None)"

text \<open>A register whose 16 lanes all hold 255.\<close>

definition ex_lanes :: uint8x16_t where
  "ex_lanes = replicate 16 255"

subsection \<open>Scalar references\<close>

text \<open>
  The rows a scalar implementation produces pixel by pixel. \<open>scalar_h2v2_row\<close> uses
  the weights of the source (the comment in the source gives pixel p9 as
  \<open>3/4 * s0colsum + 1/4 * s1colsum\<close>). \<open>spec_h2v2_row\<close> follows the words of
  section 4.1 of the specification, which give the pixel \<open>2 c - 1\<close> between columns
  \<open>c - 1\<close> and \<open>c\<close> as \<open>(3 * s1colsum + s0colsum + 7) >> 4\<close> and the pixel \<open>2 c\<close> as
  \<open>(3 * s0colsum + s1colsum + 8) >> 4\<close>, with s0 the column \<open>c - 1\<close> and s1 the column \<open>c\<close>.
  \<open>spec_h1v2_top_row\<close> and \<open>spec_h1v2_bottom_row\<close> follow section 4.2.
\<close>

definition scalar_h2v2_row :: "nat \<Rightarrow> JSAMPROW \<Rightarrow> JSAMPROW \<Rightarrow> JSAMPROW" where
  "scalar_h2v2_row w cur nb = map (\<lambda>j. word_of_int (h2v2_ref_pixel w cur nb j)) [0 ..< 2 * w]"

definition spec_h2v2_pixel :: "nat \<Rightarrow> JSAMPROW \<Rightarrow> JSAMPROW \<Rightarrow> nat \<Rightarrow> int" where
  "spec_h2v2_pixel w cur nb j =
     (if j = 0 then ((3 * GETJSAMPLE (cur ! 0) + GETJSAMPLE (nb ! 0)) * 4 + 8) div 16
      else if j = 2 * w - 1
      then ((3 * GETJSAMPLE (cur ! (w - 1)) + GETJSAMPLE (nb ! (w - 1))) * 4 + 7) div 16
      else if odd j
      then (let c = (j + 1) div 2;
                s0colsum = 3 * GETJSAMPLE (cur ! (c - 1)) + GETJSAMPLE (nb ! (c - 1));
                s1colsum = 3 * GETJSAMPLE (cur ! c) + GETJSAMPLE (nb ! c)
            in (3 * s1colsum + s0colsum + 7) div 16)
      else (let c = j div 2;
                s0colsum = 3 * GETJSAMPLE (cur ! (c - 1)) + GETJSAMPLE (nb ! (c - 1));
                s1colsum = 3 * GETJSAMPLE (cur ! c) + GETJSAMPLE (nb ! c)
            in (3 * s0colsum + s1colsum + 8) div 16))"

definition spec_h2v2_row :: "nat \<Rightarrow> JSAMPROW \<Rightarrow> JSAMPROW \<Rightarrow> JSAMPROW" where
  "spec_h2v2_row w cur nb = map (\<lambda>j. word_of_int (spec_h2v2_pixel w cur nb j)) [0 ..< 2 * w]"

definition spec_h1v2_top_row :: "nat \<Rightarrow> JSAMPROW \<Rightarrow> JSAMPROW \<Rightarrow> JSAMPROW" where
  "spec_h1v2_top_row w cur nb =
     map (\<lambda>c. word_of_int ((3 * GETJSAMPLE (cur ! c) + GETJSAMPLE (nb ! c) + 1) div 4)) [0 ..< w]"

definition spec_h1v2_bottom_row :: "nat \<Rightarrow> JSAMPROW \<Rightarrow> JSAMPROW \<Rightarrow> JSAMPROW" where
  "spec_h1v2_bottom_row w cur nb =
     map (\<lambda>c. word_of_int ((3 * GETJSAMPLE (cur ! c) + GETJSAMPLE (nb ! c) + 2) div 4)) [0 ..< w]"

section \<open>Lemmas\<close>

subsection \<open>Arithmetic of one lane\<close>

lemma u8_lt: "uint (a :: 8 word) < 256"
  using uint_lt2p [of a] by simp

lemma uint_up16: "uint (ucast (a :: 8 word) :: 16 word) = uint a"
  by (simp add: uint_up_ucast is_up)

lemma colsum_lane:
  fixes a b :: "8 word"
  shows "uint (ucast a + ucast b * 3 :: 16 word) = 3 * uint b + uint a"
proof -
  have "0 \<le> uint a" "uint a < 256" "0 \<le> uint b" "uint b < 256"
    using u8_lt [of a] u8_lt [of b] by simp_all
  then show ?thesis
    by (simp add: uint_word_ariths uint_up16 mod_pos_pos_trivial)
qed

lemma blend_lane:
  fixes s t :: "16 word"
  assumes "uint s \<le> 1020" "uint t \<le> 1020"
  shows "uint (t + s * 3 + 7) = 3 * uint s + uint t + 7"
    and "uint (t + s * 3) = 3 * uint s + uint t"
  using assms by (simp_all add: uint_word_ariths mod_pos_pos_trivial)

lemma div16_mod256:
  fixes k :: int
  assumes "0 \<le> k" "k \<le> 4095"
  shows "(k div 16) mod 256 = k div 16"
  using assms by (intro mod_pos_pos_trivial) simp_all

lemma shrn_lane:
  fixes x :: "16 word"
  assumes "uint x \<le> 4095"
  shows "uint (ucast (drop_bit 4 x) :: 8 word) = uint x div 16"
proof -
  have "uint (ucast (drop_bit 4 x) :: 8 word) = (uint x div 16) mod 256"
    by (simp add: unsigned_ucast_eq unsigned_drop_bit_eq take_bit_eq_mod drop_bit_eq_div
        uint_div_distrib)
  also have "\<dots> = uint x div 16"
    using assms by (intro div16_mod256) simp_all
  finally show ?thesis .
qed

lemma rshrn_nat:
  fixes n :: nat
  assumes "n \<le> 4087"
  shows "uint (word_of_nat (drop_bit 4 (n + 2 ^ (4 - 1))) :: 8 word) = (int n + 8) div 16"
proof -
  have "uint (word_of_nat (drop_bit 4 (n + 2 ^ (4 - 1))) :: 8 word)
      = int (((n + 8) div 16) mod 256)"
    by (simp add: unsigned_of_nat take_bit_eq_mod drop_bit_eq_div)
  also have "((n + 8) div 16) mod 256 = (n + 8) div 16"
    using assms by simp
  also have "int ((n + 8) div 16) = (int n + 8) div 16"
    by simp
  finally show ?thesis .
qed

lemma rshrn_lane:
  fixes x :: "16 word"
  assumes "uint x \<le> 4087"
  shows "uint (word_of_nat (drop_bit 4 (unat x + 2 ^ (4 - 1))) :: 8 word) = (uint x + 8) div 16"
proof -
  have "int (unat x) = uint x"
    by simp
  moreover from this assms have "unat x \<le> 4087"
    by linarith
  ultimately show ?thesis
    using rshrn_nat [of "unat x"] by simp
qed

lemma first_pixel_val:
  fixes a b :: "8 word"
  shows "uint (word_of_int (drop_bit 4 ((uint a * 3 + uint b) * 4 + 8)) :: 8 word)
           = ((3 * uint a + uint b) * 4 + 8) div 16"
proof -
  have "0 \<le> uint a" "uint a < 256" "0 \<le> uint b" "uint b < 256"
    using u8_lt [of a] u8_lt [of b] by simp_all
  then have "0 \<le> (3 * uint a + uint b) * 4 + 8" "(3 * uint a + uint b) * 4 + 8 \<le> 4095"
    by simp_all
  then have "(((3 * uint a + uint b) * 4 + 8) div 16) mod 256 = ((3 * uint a + uint b) * 4 + 8) div 16"
    by (rule div16_mod256)
  then show ?thesis
    by (simp add: uint_word_of_int drop_bit_eq_div mult.commute)
qed

subsection \<open>Lanes of the intrinsics\<close>

lemma length_vmovl_u8: "length (vmovl_u8 v) = length v"
  by (simp add: vmovl_u8_def)

lemma length_vmlal_u8:
  "length (vmlal_u8 a b c) = min (length a) (min (length b) (length c))"
  by (simp add: vmlal_u8_def)

lemma length_vmlaq_u16:
  "length (vmlaq_u16 a b c) = min (length a) (min (length b) (length c))"
  by (simp add: vmlaq_u16_def)

lemma length_vaddq_u16: "length (vaddq_u16 a b) = min (length a) (length b)"
  by (simp add: vaddq_u16_def)

lemma length_vshrn: "length (vshrn_n_u16 a n) = length a"
  by (simp add: vshrn_n_u16_def)

lemma length_vrshrn: "length (vrshrn_n_u16 a n) = length a"
  by (simp add: vrshrn_n_u16_def)

lemma nth_vmlal_u8:
  "m < length a \<Longrightarrow> m < length b \<Longrightarrow> m < length c
     \<Longrightarrow> vmlal_u8 a b c ! m = a ! m + ucast (b ! m) * ucast (c ! m)"
  by (simp add: vmlal_u8_def)

lemma nth_vmlaq_u16:
  "m < length a \<Longrightarrow> m < length b \<Longrightarrow> m < length c
     \<Longrightarrow> vmlaq_u16 a b c ! m = a ! m + b ! m * c ! m"
  by (simp add: vmlaq_u16_def)

lemma nth_vaddq_u16:
  "m < length a \<Longrightarrow> m < length b \<Longrightarrow> vaddq_u16 a b ! m = a ! m + b ! m"
  by (simp add: vaddq_u16_def)

lemma nth_vshrn:
  "m < length a \<Longrightarrow> vshrn_n_u16 a n ! m = ucast (drop_bit n (a ! m))"
  by (simp add: vshrn_n_u16_def)

lemma nth_vrshrn:
  "m < length a \<Longrightarrow>
     vrshrn_n_u16 a n ! m = word_of_nat (drop_bit n (unat (a ! m) + 2 ^ (n - 1)))"
  by (simp add: vrshrn_n_u16_def)

text \<open>The vertical blend of one half register, lane by lane.\<close>

lemma colsum_half_low:
  assumes "length r0 = 16" "length r1 = 16" "m < 8"
  shows "vmlal_u8 (vmovl_u8 (vget_low_u8 r0)) (vget_low_u8 r1) three_u8 ! m
           = ucast (r0 ! m) + ucast (r1 ! m) * ucast (3 :: 8 word)"
  using assms
  by (simp add: nth_vmlal_u8 vmovl_u8_def vget_low_u8_def three_u8_def vdup_n_u8_def)

lemma colsum_half_high:
  assumes "length r0 = 16" "length r1 = 16" "m < 8"
  shows "vmlal_u8 (vmovl_u8 (vget_high_u8 r0)) (vget_high_u8 r1) three_u8 ! m
           = ucast (r0 ! (8 + m)) + ucast (r1 ! (8 + m)) * ucast (3 :: 8 word)"
  using assms
  by (simp add: nth_vmlal_u8 vmovl_u8_def vget_high_u8_def three_u8_def vdup_n_u8_def)

lemma length_colsum_half:
  assumes "length r0 = 16" "length r1 = 16"
  shows "length (vmlal_u8 (vmovl_u8 (vget_low_u8 r0)) (vget_low_u8 r1) three_u8) = 8"
    and "length (vmlal_u8 (vmovl_u8 (vget_high_u8 r0)) (vget_high_u8 r1) three_u8) = 8"
  using assms
  by (simp_all add: length_vmlal_u8 vmovl_u8_def vget_low_u8_def vget_high_u8_def
      three_u8_def vdup_n_u8_def)

text \<open>The vertical blend seen on all 16 lanes of a register pair \<open>(_l, _h)\<close>.\<close>

lemma colsum_pair_nth:
  assumes "length r0 = 16" "length r1 = 16" "m < 16"
  shows "(vmlal_u8 (vmovl_u8 (vget_low_u8 r0)) (vget_low_u8 r1) three_u8 @
          vmlal_u8 (vmovl_u8 (vget_high_u8 r0)) (vget_high_u8 r1) three_u8) ! m
           = wcolsum (r1 ! m) (r0 ! m)"
proof (cases "m < 8")
  case True
  with assms show ?thesis
    by (simp add: nth_append length_colsum_half colsum_half_low wcolsum_def)
next
  case False
  with assms have "m - 8 < 8" "8 + (m - 8) = m"
    by simp_all
  with assms False show ?thesis
    by (simp add: nth_append length_colsum_half colsum_half_high wcolsum_def)
qed

lemma uint_wcolsum: "uint (wcolsum r1 r0) = 3 * uint r1 + uint r0"
  by (simp add: wcolsum_def colsum_lane)

lemma wcolsum_le: "uint (wcolsum r1 r0) \<le> 1020"
  using u8_lt [of r0] u8_lt [of r1] by (simp add: uint_wcolsum)

lemma step1_lanes:
  assumes "length s0r0 = 16" "length s0r1 = 16" "length s0r2 = 16"
    and "length s1r0 = 16" "length s1r1 = 16" "length s1r2 = 16"
    and "m < 16"
  defines "cs \<equiv> h2v2_step1 s0r0 s0r1 s0r2 s1r0 s1r1 s1r2"
  shows "(s0colsum0_l cs @ s0colsum0_h cs) ! m = wcolsum (s0r1 ! m) (s0r0 ! m)"
    and "(s0colsum1_l cs @ s0colsum1_h cs) ! m = wcolsum (s0r1 ! m) (s0r2 ! m)"
    and "(s1colsum0_l cs @ s1colsum0_h cs) ! m = wcolsum (s1r1 ! m) (s1r0 ! m)"
    and "(s1colsum1_l cs @ s1colsum1_h cs) ! m = wcolsum (s1r1 ! m) (s1r2 ! m)"
  using assms(1-7) by (simp_all add: cs_def h2v2_step1_def colsum_pair_nth)

lemma step1_lengths:
  assumes "length s0r0 = 16" "length s0r1 = 16" "length s0r2 = 16"
    and "length s1r0 = 16" "length s1r1 = 16" "length s1r2 = 16"
  defines "cs \<equiv> h2v2_step1 s0r0 s0r1 s0r2 s1r0 s1r1 s1r2"
  shows "length (s0colsum0_l cs) = 8" "length (s0colsum0_h cs) = 8"
    and "length (s0colsum1_l cs) = 8" "length (s0colsum1_h cs) = 8"
    and "length (s1colsum0_l cs) = 8" "length (s1colsum0_h cs) = 8"
    and "length (s1colsum1_l cs) = 8" "length (s1colsum1_h cs) = 8"
  using assms(1-6) by (simp_all add: cs_def h2v2_step1_def length_colsum_half)

text \<open>The horizontal blend on all 16 lanes.\<close>

lemma blend_p1_pair_nth:
  assumes "length a_l = 8" "length a_h = 8" "length b_l = 8" "length b_h = 8" "m < 16"
  shows "(vaddq_u16 (vmlaq_u16 b_l a_l three_u16) seven_u16 @
          vaddq_u16 (vmlaq_u16 b_h a_h three_u16) seven_u16) ! m
           = (b_l @ b_h) ! m + (a_l @ a_h) ! m * 3 + 7"
  using assms
  by (cases "m < 8")
    (simp_all add: nth_append length_vaddq_u16 length_vmlaq_u16 nth_vaddq_u16 nth_vmlaq_u16
      three_u16_def seven_u16_def vdupq_n_u16_def)

lemma blend_p2_pair_nth:
  assumes "length a_l = 8" "length a_h = 8" "length b_l = 8" "length b_h = 8" "m < 16"
  shows "(vmlaq_u16 a_l b_l three_u16 @ vmlaq_u16 a_h b_h three_u16) ! m
           = (a_l @ a_h) ! m + (b_l @ b_h) ! m * 3"
  using assms
  by (cases "m < 8")
    (simp_all add: nth_append length_vmlaq_u16 nth_vmlaq_u16 three_u16_def vdupq_n_u16_def)

lemma shrn_pair_nth:
  assumes "length l = 8" "length h = 8" "m < 16"
  shows "vcombine_u8 (vshrn_n_u16 l n) (vshrn_n_u16 h n) ! m = ucast (drop_bit n ((l @ h) ! m))"
  using assms
  by (cases "m < 8") (simp_all add: vcombine_u8_def nth_append length_vshrn nth_vshrn)

lemma rshrn_pair_nth:
  assumes "length l = 8" "length h = 8" "m < 16"
  shows "vcombine_u8 (vrshrn_n_u16 l n) (vrshrn_n_u16 h n) ! m
           = word_of_nat (drop_bit n (unat ((l @ h) ! m) + 2 ^ (n - 1)))"
  using assms
  by (cases "m < 8") (simp_all add: vcombine_u8_def nth_append length_vrshrn nth_vrshrn)

lemma step2_lanes:
  assumes "length s0r0 = 16" "length s0r1 = 16" "length s0r2 = 16"
    and "length s1r0 = 16" "length s1r1 = 16" "length s1r2 = 16"
    and "m < 16"
  defines "b \<equiv> h2v2_step2 (h2v2_step1 s0r0 s0r1 s0r2 s1r0 s1r1 s1r2)"
  shows "(output0_p1_l b @ output0_p1_h b) ! m
           = wcolsum (s1r1 ! m) (s1r0 ! m) + wcolsum (s0r1 ! m) (s0r0 ! m) * 3 + 7"
    and "(output0_p2_l b @ output0_p2_h b) ! m
           = wcolsum (s0r1 ! m) (s0r0 ! m) + wcolsum (s1r1 ! m) (s1r0 ! m) * 3"
    and "(output1_p1_l b @ output1_p1_h b) ! m
           = wcolsum (s1r1 ! m) (s1r2 ! m) + wcolsum (s0r1 ! m) (s0r2 ! m) * 3 + 7"
    and "(output1_p2_l b @ output1_p2_h b) ! m
           = wcolsum (s0r1 ! m) (s0r2 ! m) + wcolsum (s1r1 ! m) (s1r2 ! m) * 3"
  using assms(1-7)
  by (simp_all add: b_def h2v2_step2_def blend_p1_pair_nth blend_p2_pair_nth step1_lengths
      step1_lanes)

lemma step2_lengths:
  assumes "length s0r0 = 16" "length s0r1 = 16" "length s0r2 = 16"
    and "length s1r0 = 16" "length s1r1 = 16" "length s1r2 = 16"
  defines "b \<equiv> h2v2_step2 (h2v2_step1 s0r0 s0r1 s0r2 s1r0 s1r1 s1r2)"
  shows "length (output0_p1_l b) = 8" "length (output0_p1_h b) = 8"
    and "length (output0_p2_l b) = 8" "length (output0_p2_h b) = 8"
    and "length (output1_p1_l b) = 8" "length (output1_p1_h b) = 8"
    and "length (output1_p2_l b) = 8" "length (output1_p2_h b) = 8"
  using assms(1-6)
  by (simp_all add: b_def h2v2_step2_def length_vaddq_u16 length_vmlaq_u16 step1_lengths
      three_u16_def seven_u16_def vdupq_n_u16_def)

text \<open>The values before the shift, as integers: nothing wraps.\<close>

lemma uint_blend_p1:
  "uint (wcolsum b1 b0 + wcolsum a1 a0 * 3 + 7)
     = 3 * (3 * uint a1 + uint a0) + (3 * uint b1 + uint b0) + 7"
  using blend_lane(1) [OF wcolsum_le [of a1 a0] wcolsum_le [of b1 b0]]
  by (simp add: uint_wcolsum)

lemma uint_blend_p2:
  "uint (wcolsum b1 b0 + wcolsum a1 a0 * 3)
     = 3 * (3 * uint a1 + uint a0) + (3 * uint b1 + uint b0)"
  using blend_lane(2) [OF wcolsum_le [of a1 a0] wcolsum_le [of b1 b0]]
  by (simp add: uint_wcolsum)

lemma blend_bounds:
  "3 * (3 * uint (a1 :: 8 word) + uint (a0 :: 8 word))
     + (3 * uint (b1 :: 8 word) + uint (b0 :: 8 word)) \<le> 4080"
  using u8_lt [of a0] u8_lt [of a1] u8_lt [of b0] u8_lt [of b1] by simp

lemma pixel_p1_val:
  "uint (ucast (drop_bit 4 (wcolsum b1 b0 + wcolsum a1 a0 * 3 + 7)) :: 8 word)
     = (3 * colsum a1 a0 + colsum b1 b0 + 7) div 16"
proof -
  have "uint (wcolsum b1 b0 + wcolsum a1 a0 * 3 + 7) \<le> 4095"
    using blend_bounds [of a1 a0 b1 b0] by (simp add: uint_blend_p1)
  then show ?thesis
    by (simp add: shrn_lane uint_blend_p1 colsum_def GETJSAMPLE_def)
qed

lemma pixel_p2_val:
  "uint (word_of_nat (drop_bit 4 (unat (wcolsum b1 b0 + wcolsum a1 a0 * 3) + 2 ^ (4 - 1))) :: 8 word)
     = (3 * colsum a1 a0 + colsum b1 b0 + 8) div 16"
proof -
  have "uint (wcolsum b1 b0 + wcolsum a1 a0 * 3) \<le> 4087"
    using blend_bounds [of a1 a0 b1 b0] by (simp add: uint_blend_p2)
  then have "uint (word_of_nat (drop_bit 4 (unat (wcolsum b1 b0 + wcolsum a1 a0 * 3) + 2 ^ (4 - 1))) :: 8 word)
     = (uint (wcolsum b1 b0 + wcolsum a1 a0 * 3) + 8) div 16"
    by (rule rshrn_lane)
  then show ?thesis
    by (simp add: uint_blend_p2 colsum_def GETJSAMPLE_def)
qed

lemma h2v2_pixels_lanes:
  assumes "length s0r0 = 16" "length s0r1 = 16" "length s0r2 = 16"
    and "length s1r0 = 16" "length s1r1 = 16" "length s1r2 = 16"
    and "m < 16"
  defines "b \<equiv> h2v2_step2 (h2v2_step1 s0r0 s0r1 s0r2 s1r0 s1r1 s1r2)"
  shows "uint (fst (h2v2_output_pixels0 b) ! m)
           = (3 * colsum (s0r1 ! m) (s0r0 ! m) + colsum (s1r1 ! m) (s1r0 ! m) + 7) div 16"
    and "uint (snd (h2v2_output_pixels0 b) ! m)
           = (3 * colsum (s1r1 ! m) (s1r0 ! m) + colsum (s0r1 ! m) (s0r0 ! m) + 8) div 16"
    and "uint (fst (h2v2_output_pixels1 b) ! m)
           = (3 * colsum (s0r1 ! m) (s0r2 ! m) + colsum (s1r1 ! m) (s1r2 ! m) + 7) div 16"
    and "uint (snd (h2v2_output_pixels1 b) ! m)
           = (3 * colsum (s1r1 ! m) (s1r2 ! m) + colsum (s0r1 ! m) (s0r2 ! m) + 8) div 16"
  using assms(1-7) unfolding b_def h2v2_output_pixels0_def h2v2_output_pixels1_def fst_conv snd_conv
  by (simp_all only: shrn_pair_nth rshrn_pair_nth step2_lengths step2_lanes
      pixel_p1_val pixel_p2_val)

lemma h2v2_pixels_lengths:
  assumes "length s0r0 = 16" "length s0r1 = 16" "length s0r2 = 16"
    and "length s1r0 = 16" "length s1r1 = 16" "length s1r2 = 16"
  defines "b \<equiv> h2v2_step2 (h2v2_step1 s0r0 s0r1 s0r2 s1r0 s1r1 s1r2)"
  shows "length (fst (h2v2_output_pixels0 b)) = 16" "length (snd (h2v2_output_pixels0 b)) = 16"
    and "length (fst (h2v2_output_pixels1 b)) = 16" "length (snd (h2v2_output_pixels1 b)) = 16"
  using assms(1-6)
  by (simp_all add: b_def h2v2_output_pixels0_def h2v2_output_pixels1_def vcombine_u8_def
      length_vshrn length_vrshrn step2_lengths)

subsection \<open>Loads and stores\<close>

lemma vld1q_u8_Some:
  "k + 16 \<le> length p \<Longrightarrow> vld1q_u8 p (int k) = Some (take 16 (drop k p))"
  by (simp add: vld1q_u8_def)

lemma load_u8_Some: "k < length p \<Longrightarrow> load_u8 p (int k) = Some (p ! k)"
  by (simp add: load_u8_def)

lemma store_u8_Some: "k < length p \<Longrightarrow> store_u8 p (int k) v = Some (p[k := v])"
  by (simp add: store_u8_def)

lemma length_interleave: "length (interleave as bs) = 2 * min (length as) (length bs)"
  by (induction as bs rule: interleave.induct) simp_all

lemma nth_interleave:
  "j < 2 * min (length as) (length bs)
     \<Longrightarrow> interleave as bs ! j = (if even j then as ! (j div 2) else bs ! (j div 2))"
proof (induction as bs arbitrary: j rule: interleave.induct)
  case (1 a as b bs)
  show ?case
  proof (cases j)
    case 0
    then show ?thesis by simp
  next
    case (Suc j1)
    show ?thesis
    proof (cases j1)
      case 0
      with Suc show ?thesis by simp
    next
      case (Suc j2)
      with \<open>j = Suc j1\<close> "1.prems" have "j2 < 2 * min (length as) (length bs)"
        by simp
      from "1.IH" [OF this] Suc \<open>j = Suc j1\<close> show ?thesis
        by simp
    qed
  qed
qed simp_all

lemma store_bytes_Some:
  "k + length bs \<le> length p
     \<Longrightarrow> store_bytes p (int k) bs = Some (take k p @ bs @ drop (k + length bs) p)"
  by (simp add: store_bytes_def)

lemma length_stored:
  "k + length bs \<le> length p \<Longrightarrow> length (take k p @ bs @ drop (k + length bs) p) = length p"
  by simp

lemma nth_stored:
  assumes "k + length bs \<le> length p" "j < length p"
  shows "(take k p @ bs @ drop (k + length bs) p) ! j
           = (if k \<le> j \<and> j < k + length bs then bs ! (j - k) else p ! j)"
proof -
  have lk: "k \<le> length p"
    using assms by simp
  consider "j < k" | "k \<le> j" "j < k + length bs" | "k + length bs \<le> j"
    by linarith
  then show ?thesis
  proof cases
    case 1
    then have "(take k p @ bs @ drop (k + length bs) p) ! j = take k p ! j"
      using lk assms(2) by (simp add: nth_append)
    with 1 show ?thesis by simp
  next
    case 2
    then have "j - k < length bs" "\<not> j < k"
      by simp_all
    then have "(take k p @ bs @ drop (k + length bs) p) ! j = bs ! (j - k)"
      using lk assms(2) by (simp add: nth_append)
    with 2 show ?thesis by simp
  next
    case 3
    then have a: "\<not> j < k" "\<not> j - k < length bs"
      by linarith+
    from 3 have b: "k + length bs + (j - k - length bs) = j"
      by linarith
    have "(take k p @ bs @ drop (k + length bs) p) ! j
            = drop (k + length bs) p ! (j - k - length bs)"
      using a lk by (simp add: nth_append)
    also have "\<dots> = p ! (k + length bs + (j - k - length bs))"
      using assms by (intro nth_drop) simp
    finally show ?thesis
      using 3 b by simp
  qed
qed

lemma vst2q_u8_Some:
  assumes "length (fst v) = 16" "length (snd v) = 16" "k + 32 \<le> length p"
  shows "\<exists>p'. vst2q_u8 p (int k) v = Some p' \<and> length p' = length p \<and>
           (\<forall>j < length p. p' ! j =
              (if k \<le> j \<and> j < k + 32
               then (if even (j - k) then fst v ! ((j - k) div 2) else snd v ! ((j - k) div 2))
               else p ! j))"
proof -
  let ?bs = "interleave (fst v) (snd v)"
  have len: "length ?bs = 32"
    using assms by (simp add: length_interleave)
  with assms have fits: "k + length ?bs \<le> length p"
    by simp
  let ?p' = "take k p @ ?bs @ drop (k + length ?bs) p"
  have "vst2q_u8 p (int k) v = Some ?p'"
    unfolding vst2q_u8_def by (rule store_bytes_Some [OF fits])
  moreover have "length ?p' = length p"
    by (rule length_stored [OF fits])
  moreover have "?p' ! j =
      (if k \<le> j \<and> j < k + 32
       then (if even (j - k) then fst v ! ((j - k) div 2) else snd v ! ((j - k) div 2))
       else p ! j)" if "j < length p" for j
  proof (cases "k \<le> j \<and> j < k + 32")
    case True
    then have "j - k < 2 * min (length (fst v)) (length (snd v))"
      using assms by linarith
    from nth_interleave [OF this] nth_stored [OF fits that] True len show ?thesis
      by simp
  next
    case False
    with nth_stored [OF fits that] len show ?thesis
      by auto
  qed
  ultimately show ?thesis
    by blast
qed

lemma nth_loaded: "k + 16 \<le> length p \<Longrightarrow> m < 16 \<Longrightarrow> take 16 (drop k p) ! m = p ! (k + m)"
  by simp

lemma length_loaded: "k + 16 \<le> length p \<Longrightarrow> length (take 16 (drop k p)) = 16"
  by simp

lemma block_index:
  assumes "2 * k + 1 \<le> j" "j < 2 * k + 33"
  shows "(j - (2 * k + 1)) div 2 < 16"
    and "even (j - (2 * k + 1)) \<Longrightarrow> odd j \<and> k + (j - (2 * k + 1)) div 2 = j div 2"
    and "odd (j - (2 * k + 1)) \<Longrightarrow>
           even j \<and> Suc (k + (j - (2 * k + 1)) div 2) = j div 2
             \<and> k + (j - (2 * k + 1)) div 2 = j div 2 - 1"
  using assms by presburger+

lemma interior_of_lanes:
  assumes cur: "k + 17 \<le> length cur" and nb: "k + 17 \<le> length nb"
    and v0: "\<And>m. m < 16 \<Longrightarrow> uint (fst v ! m) =
        (3 * colsum (take 16 (drop k cur) ! m) (take 16 (drop k nb) ! m)
          + colsum (take 16 (drop (Suc k) cur) ! m) (take 16 (drop (Suc k) nb) ! m) + 7) div 16"
    and v1: "\<And>m. m < 16 \<Longrightarrow> uint (snd v ! m) =
        (3 * colsum (take 16 (drop (Suc k) cur) ! m) (take 16 (drop (Suc k) nb) ! m)
          + colsum (take 16 (drop k cur) ! m) (take 16 (drop k nb) ! m) + 8) div 16"
    and st: "q ! j =
        (if 2 * k + 1 \<le> j \<and> j < 2 * k + 1 + 32
         then (if even (j - (2 * k + 1)) then fst v ! ((j - (2 * k + 1)) div 2)
               else snd v ! ((j - (2 * k + 1)) div 2))
         else p ! j)"
    and j: "2 * k + 1 \<le> j" "j < 2 * k + 33"
  shows "uint (q ! j) = h2v2_interior cur nb j"
proof -
  define m where "m = (j - (2 * k + 1)) div 2"
  note ix = block_index [OF j, folded m_def]
  have l0: "take 16 (drop k cur) ! m = cur ! (k + m)" "take 16 (drop k nb) ! m = nb ! (k + m)"
    using cur nb ix(1) by simp_all
  have l1: "take 16 (drop (Suc k) cur) ! m = cur ! Suc (k + m)"
    "take 16 (drop (Suc k) nb) ! m = nb ! Suc (k + m)"
    using cur nb ix(1) by simp_all
  show ?thesis
  proof (cases "even (j - (2 * k + 1))")
    case True
    from ix(2) [OF True] have oj: "odd j" and e: "k + m = j div 2"
      by simp_all
    from st j True have "q ! j = fst v ! m"
      by (simp add: m_def)
    then have "uint (q ! j) = (3 * colsum (cur ! (k + m)) (nb ! (k + m))
        + colsum (cur ! Suc (k + m)) (nb ! Suc (k + m)) + 7) div 16"
      using v0 [OF ix(1)] by (simp only: l0 l1)
    then show ?thesis
      unfolding e using oj by (simp add: h2v2_interior_def)
  next
    case False
    from ix(3) [OF False] have ej: "even j" and e: "Suc (k + m) = j div 2" "k + m = j div 2 - 1"
      by simp_all
    from st j False have "q ! j = snd v ! m"
      by (simp add: m_def)
    then have "uint (q ! j) = (3 * colsum (cur ! (j div 2)) (nb ! (j div 2))
        + colsum (cur ! (j div 2 - 1)) (nb ! (j div 2 - 1)) + 8) div 16"
      using v1 [OF ix(1)] by (simp only: l0 [unfolded e(2)] l1 [unfolded e(1)])
    then show ?thesis
      using ej by (simp add: h2v2_interior_def)
  qed
qed

lemma h2v2_block_correct:
  assumes in0: "k + 17 \<le> length inptr0" and in1: "k + 17 \<le> length inptr1"
    and in2: "k + 17 \<le> length inptr2"
    and out0: "2 * k + 33 \<le> length outptr0" and out1: "2 * k + 33 \<le> length outptr1"
  shows "\<exists>o0 o1.
      h2v2_block inptr0 inptr1 inptr2 (int k) (int k + 1) outptr0 outptr1 (2 * int k + 1)
        = Some (o0, o1)
      \<and> length o0 = length outptr0 \<and> length o1 = length outptr1
      \<and> (\<forall>j < length outptr0.
            if 2 * k + 1 \<le> j \<and> j < 2 * k + 33
            then uint (o0 ! j) = h2v2_interior inptr1 inptr0 j else o0 ! j = outptr0 ! j)
      \<and> (\<forall>j < length outptr1.
            if 2 * k + 1 \<le> j \<and> j < 2 * k + 33
            then uint (o1 ! j) = h2v2_interior inptr1 inptr2 j else o1 ! j = outptr1 ! j)"
proof -
  define s0r0 where "s0r0 = take 16 (drop k inptr0)"
  define s0r1 where "s0r1 = take 16 (drop k inptr1)"
  define s0r2 where "s0r2 = take 16 (drop k inptr2)"
  define s1r0 where "s1r0 = take 16 (drop (Suc k) inptr0)"
  define s1r1 where "s1r1 = take 16 (drop (Suc k) inptr1)"
  define s1r2 where "s1r2 = take 16 (drop (Suc k) inptr2)"
  define b where "b = h2v2_step2 (h2v2_step1 s0r0 s0r1 s0r2 s1r0 s1r1 s1r2)"
  have lens: "length s0r0 = 16" "length s0r1 = 16" "length s0r2 = 16"
    "length s1r0 = 16" "length s1r1 = 16" "length s1r2 = 16"
    using in0 in1 in2 by (simp_all add: s0r0_def s0r1_def s0r2_def s1r0_def s1r1_def s1r2_def)
  have lanes0: "s0r0 ! m = inptr0 ! (k + m)" "s0r1 ! m = inptr1 ! (k + m)"
    "s0r2 ! m = inptr2 ! (k + m)" if "m < 16" for m
    using in0 in1 in2 that by (simp_all add: s0r0_def s0r1_def s0r2_def)
  have lanes1: "s1r0 ! m = inptr0 ! Suc (k + m)" "s1r1 ! m = inptr1 ! Suc (k + m)"
    "s1r2 ! m = inptr2 ! Suc (k + m)" if "m < 16" for m
    using in0 in1 in2 that by (simp_all add: s1r0_def s1r1_def s1r2_def)
  have loads: "vld1q_u8 inptr0 (int k) = Some s0r0" "vld1q_u8 inptr1 (int k) = Some s0r1"
    "vld1q_u8 inptr2 (int k) = Some s0r2" "vld1q_u8 inptr0 (int k + 1) = Some s1r0"
    "vld1q_u8 inptr1 (int k + 1) = Some s1r1" "vld1q_u8 inptr2 (int k + 1) = Some s1r2"
    using in0 in1 in2 vld1q_u8_Some [of "Suc k" inptr0] vld1q_u8_Some [of "Suc k" inptr1]
      vld1q_u8_Some [of "Suc k" inptr2]
    by (simp_all add: vld1q_u8_Some s0r0_def s0r1_def s0r2_def s1r0_def s1r1_def s1r2_def
        add.commute)
  have plen: "length (fst (h2v2_output_pixels0 b)) = 16" "length (snd (h2v2_output_pixels0 b)) = 16"
    "length (fst (h2v2_output_pixels1 b)) = 16" "length (snd (h2v2_output_pixels1 b)) = 16"
    unfolding b_def by (rule h2v2_pixels_lengths [OF lens])+
  have ko: "2 * int k + 1 = int (2 * k + 1)"
    by simp
  from vst2q_u8_Some [OF plen(1,2), of "2 * k + 1" outptr0] out0
  obtain o0 where o0: "vst2q_u8 outptr0 (2 * int k + 1) (h2v2_output_pixels0 b) = Some o0"
    "length o0 = length outptr0"
    "\<And>j. j < length outptr0 \<Longrightarrow> o0 ! j =
        (if 2 * k + 1 \<le> j \<and> j < 2 * k + 1 + 32
         then (if even (j - (2 * k + 1)) then fst (h2v2_output_pixels0 b) ! ((j - (2 * k + 1)) div 2)
               else snd (h2v2_output_pixels0 b) ! ((j - (2 * k + 1)) div 2))
         else outptr0 ! j)"
    unfolding ko by auto
  from vst2q_u8_Some [OF plen(3,4), of "2 * k + 1" outptr1] out1
  obtain o1 where o1: "vst2q_u8 outptr1 (2 * int k + 1) (h2v2_output_pixels1 b) = Some o1"
    "length o1 = length outptr1"
    "\<And>j. j < length outptr1 \<Longrightarrow> o1 ! j =
        (if 2 * k + 1 \<le> j \<and> j < 2 * k + 1 + 32
         then (if even (j - (2 * k + 1)) then fst (h2v2_output_pixels1 b) ! ((j - (2 * k + 1)) div 2)
               else snd (h2v2_output_pixels1 b) ! ((j - (2 * k + 1)) div 2))
         else outptr1 ! j)"
    unfolding ko by auto
  have run: "h2v2_block inptr0 inptr1 inptr2 (int k) (int k + 1) outptr0 outptr1 (2 * int k + 1)
      = Some (o0, o1)"
    by (simp add: h2v2_block_def loads o0(1) o1(1) b_def [symmetric])
  have px0: "uint (o0 ! j) = h2v2_interior inptr1 inptr0 j"
    if "j < length outptr0" "2 * k + 1 \<le> j" "j < 2 * k + 33" for j
    by (rule interior_of_lanes [OF in1 in0 _ _ o0(3) [OF that(1)] that(2,3)])
      (simp_all only: h2v2_pixels_lanes(1,2) [OF lens, folded b_def]
        s0r0_def [symmetric] s0r1_def [symmetric] s1r0_def [symmetric] s1r1_def [symmetric])
  have px1: "uint (o1 ! j) = h2v2_interior inptr1 inptr2 j"
    if "j < length outptr1" "2 * k + 1 \<le> j" "j < 2 * k + 33" for j
    by (rule interior_of_lanes [OF in1 in2 _ _ o1(3) [OF that(1)] that(2,3)])
      (simp_all only: h2v2_pixels_lanes(3,4) [OF lens, folded b_def]
        s0r2_def [symmetric] s0r1_def [symmetric] s1r2_def [symmetric] s1r1_def [symmetric])
  have keep0: "o0 ! j = outptr0 ! j" if "j < length outptr0" "\<not> (2 * k + 1 \<le> j \<and> j < 2 * k + 33)" for j
    using o0(3) [OF that(1)] that(2) by auto
  have keep1: "o1 ! j = outptr1 ! j" if "j < length outptr1" "\<not> (2 * k + 1 \<le> j \<and> j < 2 * k + 33)" for j
    using o1(3) [OF that(1)] that(2) by auto
  show ?thesis
  proof (intro exI conjI)
    show "h2v2_block inptr0 inptr1 inptr2 (int k) (int k + 1) outptr0 outptr1 (2 * int k + 1)
        = Some (o0, o1)"
      by (rule run)
    show "length o0 = length outptr0" "length o1 = length outptr1"
      by (rule o0(2), rule o1(2))
    show "\<forall>j < length outptr0.
            if 2 * k + 1 \<le> j \<and> j < 2 * k + 33
            then uint (o0 ! j) = h2v2_interior inptr1 inptr0 j else o0 ! j = outptr0 ! j"
      using px0 keep0 by auto
    show "\<forall>j < length outptr1.
            if 2 * k + 1 \<le> j \<and> j < 2 * k + 33
            then uint (o1 ! j) = h2v2_interior inptr1 inptr2 j else o1 ! j = outptr1 ! j"
      using px1 keep1 by auto
  qed
qed

lemma unat_add16:
  fixes c :: "32 word"
  assumes "unat c < 2 ^ 31"
  shows "unat (c + 16) = unat c + 16"
  using assms by (simp add: unat_word_ariths)

lemma unat_double:
  fixes c :: "32 word"
  assumes "unat c < 2 ^ 31"
  shows "unat (2 * c) = 2 * unat c"
  using assms by (simp add: unat_word_ariths)

lemma uint_double:
  fixes c :: "32 word"
  assumes "unat c < 2 ^ 31"
  shows "uint (2 * c) = 2 * int (unat c)"
proof -
  have "uint (2 * c) = int (unat (2 * c))"
    by simp
  also have "\<dots> = 2 * int (unat c)"
    by (simp only: unat_double [OF assms] of_nat_mult of_nat_numeral)
  finally show ?thesis .
qed

lemma ceil16_step:
  fixes q w :: nat
  assumes "16 * q < w"
  shows "q + 1 \<le> (w + 15) div 16"
  using assms by linarith

lemma in_cap_step:
  assumes "16 \<le> n" "16 dvd n" "n < w"
  shows "n + 16 \<le> h2v2_in_cap w"
proof -
  from assms obtain q where q: "n = 16 * q"
    by (auto simp: dvd_def)
  with assms have "q + 1 \<le> (w + 15) div 16"
    by (intro ceil16_step) simp
  then have "16 * q + 16 \<le> 16 * ((w + 15) div 16)"
    by simp
  with assms q show ?thesis
    by (simp add: h2v2_in_cap_def)
qed

lemma out_cap_step:
  assumes "16 \<le> n" "16 dvd n" "n < w"
  shows "2 * n + 31 \<le> h2v2_out_cap w"
proof -
  from assms obtain q where q: "n = 16 * q"
    by (auto simp: dvd_def)
  with assms have "q + 1 \<le> (w + 15) div 16"
    by (intro ceil16_step) simp
  then have "32 * q + 32 \<le> 32 * ((w + 15) div 16)"
    by simp
  then have "32 * q + 31 \<le> 32 * ((w + 15) div 16) - 1"
    by simp
  with assms q show ?thesis
    by (simp add: h2v2_out_cap_def)
qed

lemma in_cap_ge: "17 \<le> h2v2_in_cap w" "w \<le> h2v2_in_cap w"
proof -
  have "w \<le> 16 * ((w + 15) div 16)"
    by linarith
  then show "17 \<le> h2v2_in_cap w" "w \<le> h2v2_in_cap w"
    by (simp_all add: h2v2_in_cap_def)
qed

lemma out_cap_ge: "33 \<le> h2v2_out_cap w" "2 * w \<le> h2v2_out_cap w"
  by (simp_all add: h2v2_out_cap_def max_def)

lemma h2v2_cols_correct:
  fixes downsampled_width colctr :: JDIMENSION
  assumes w: "unat downsampled_width = w" "w < 2 ^ 31"
    and i0: "h2v2_in_cap w \<le> length inptr0" and i1: "h2v2_in_cap w \<le> length inptr1"
    and i2: "h2v2_in_cap w \<le> length inptr2"
    and o0: "h2v2_out_cap w \<le> length outptr0" and o1: "h2v2_out_cap w \<le> length outptr1"
    and n: "unat colctr = n" "16 \<le> n" "16 dvd n"
    and inv0: "\<And>j. 1 \<le> j \<Longrightarrow> j \<le> 2 * n - 2 \<Longrightarrow> uint (outptr0 ! j) = h2v2_interior inptr1 inptr0 j"
    and inv1: "\<And>j. 1 \<le> j \<Longrightarrow> j \<le> 2 * n - 2 \<Longrightarrow> uint (outptr1 ! j) = h2v2_interior inptr1 inptr2 j"
  shows "\<exists>q0 q1.
      h2v2_cols downsampled_width inptr0 inptr1 inptr2 colctr outptr0 outptr1 = Some (q0, q1)
      \<and> length q0 = length outptr0 \<and> length q1 = length outptr1
      \<and> q0 ! 0 = outptr0 ! 0 \<and> q1 ! 0 = outptr1 ! 0
      \<and> (\<forall>j. 1 \<le> j \<and> j \<le> 2 * w - 2 \<longrightarrow> uint (q0 ! j) = h2v2_interior inptr1 inptr0 j)
      \<and> (\<forall>j. 1 \<le> j \<and> j \<le> 2 * w - 2 \<longrightarrow> uint (q1 ! j) = h2v2_interior inptr1 inptr2 j)"
  using o0 o1 n inv0 inv1
proof (induction "w + 16 - n" arbitrary: n colctr outptr0 outptr1 rule: less_induct)
  case less
  note n = less.prems(3,4,5)
  show ?case
  proof (cases "n < w")
    case False
    then have "\<not> colctr < downsampled_width"
      by (simp add: word_less_nat_alt w n)
    then have "h2v2_cols downsampled_width inptr0 inptr1 inptr2 colctr outptr0 outptr1
        = Some (outptr0, outptr1)"
      by (subst h2v2_cols.simps) simp
    moreover from False have "j \<le> 2 * n - 2" if "j \<le> 2 * w - 2" for j
      using that by simp
    ultimately show ?thesis
      using less.prems(6,7) by simp
  next
    case True
    then have lt: "colctr < downsampled_width"
      by (simp add: word_less_nat_alt w n)
    define k where "k = n - 1"
    have k: "n = k + 1"
      using n(2) by (simp add: k_def)
    have small: "unat colctr < 2 ^ 31"
      using True w(2) unfolding n(1) by simp
    have uc: "uint colctr = int n"
      unfolding n(1) [symmetric] by simp
    have uc2: "uint (2 * colctr) = 2 * int n"
      using uint_double [OF small] unfolding n(1) .
    have offs: "uint colctr - 1 = int k" "uint colctr = int k + 1"
      "uint (2 * colctr) - 1 = 2 * int k + 1"
      unfolding uc uc2 k by simp_all
    have "n + 16 \<le> h2v2_in_cap w"
      by (rule in_cap_step [OF n(2,3) True])
    with i0 i1 i2 k have inb: "k + 17 \<le> length inptr0" "k + 17 \<le> length inptr1"
      "k + 17 \<le> length inptr2"
      by simp_all
    have "2 * n + 31 \<le> h2v2_out_cap w"
      by (rule out_cap_step [OF n(2,3) True])
    with less.prems(1,2) k have outb: "2 * k + 33 \<le> length outptr0" "2 * k + 33 \<le> length outptr1"
      by simp_all
    from h2v2_block_correct [OF inb outb]
    obtain p0 p1 where blk:
      "h2v2_block inptr0 inptr1 inptr2 (int k) (int k + 1) outptr0 outptr1 (2 * int k + 1)
         = Some (p0, p1)"
      "length p0 = length outptr0" "length p1 = length outptr1"
      "\<forall>j < length outptr0. if 2 * k + 1 \<le> j \<and> j < 2 * k + 33
          then uint (p0 ! j) = h2v2_interior inptr1 inptr0 j else p0 ! j = outptr0 ! j"
      "\<forall>j < length outptr1. if 2 * k + 1 \<le> j \<and> j < 2 * k + 33
          then uint (p1 ! j) = h2v2_interior inptr1 inptr2 j else p1 ! j = outptr1 ! j"
      by blast
    have n': "unat (colctr + 16) = n + 16" "16 \<le> n + 16" "16 dvd (n + 16)"
      using unat_add16 [OF small] n(2,3) unfolding n(1) by simp_all
    have caps': "h2v2_out_cap w \<le> length p0" "h2v2_out_cap w \<le> length p1"
      using less.prems(1,2) blk(2,3) by simp_all
    have inv0': "uint (p0 ! j) = h2v2_interior inptr1 inptr0 j"
      if "1 \<le> j" "j \<le> 2 * (n + 16) - 2" for j
    proof -
      from that outb k have jl: "j < length outptr0"
        by simp
      show ?thesis
      proof (cases "2 * k + 1 \<le> j")
        case True
        with that k have "2 * k + 1 \<le> j \<and> j < 2 * k + 33"
          by simp
        with blk(4) jl show ?thesis
          by simp
      next
        case False
        with blk(4) jl have "p0 ! j = outptr0 ! j"
          by simp
        moreover from False k have "j \<le> 2 * n - 2"
          by simp
        ultimately show ?thesis
          using less.prems(6) [OF that(1)] by simp
      qed
    qed
    have inv1': "uint (p1 ! j) = h2v2_interior inptr1 inptr2 j"
      if "1 \<le> j" "j \<le> 2 * (n + 16) - 2" for j
    proof -
      from that outb k have jl: "j < length outptr1"
        by simp
      show ?thesis
      proof (cases "2 * k + 1 \<le> j")
        case True
        with that k have "2 * k + 1 \<le> j \<and> j < 2 * k + 33"
          by simp
        with blk(5) jl show ?thesis
          by simp
      next
        case False
        with blk(5) jl have "p1 ! j = outptr1 ! j"
          by simp
        moreover from False k have "j \<le> 2 * n - 2"
          by simp
        ultimately show ?thesis
          using less.prems(7) [OF that(1)] by simp
      qed
    qed
    have "w + 16 - (n + 16) < w + 16 - n"
      using True by simp
    from less.hyps [OF this caps' n' inv0' inv1']
    obtain q0 q1 where rec:
      "h2v2_cols downsampled_width inptr0 inptr1 inptr2 (colctr + 16) p0 p1 = Some (q0, q1)"
      "length q0 = length p0" "length q1 = length p1"
      "q0 ! 0 = p0 ! 0" "q1 ! 0 = p1 ! 0"
      "\<forall>j. 1 \<le> j \<and> j \<le> 2 * w - 2 \<longrightarrow> uint (q0 ! j) = h2v2_interior inptr1 inptr0 j"
      "\<forall>j. 1 \<le> j \<and> j \<le> 2 * w - 2 \<longrightarrow> uint (q1 ! j) = h2v2_interior inptr1 inptr2 j"
      by blast
    have ne: "0 < length outptr0" "0 < length outptr1"
      using outb by linarith+
    have first: "p0 ! 0 = outptr0 ! 0" "p1 ! 0 = outptr1 ! 0"
      using blk(4) [rule_format, OF ne(1)] blk(5) [rule_format, OF ne(2)] by simp_all
    have "h2v2_cols downsampled_width inptr0 inptr1 inptr2 colctr outptr0 outptr1 = Some (q0, q1)"
      by (subst h2v2_cols.simps) (simp add: lt offs blk(1) rec(1))
    with rec blk(2,3) first show ?thesis
      by simp
  qed
qed

lemma uint_first_pixel: "uint (h2v2_first_pixel a b) = (colsum a b * 4 + 8) div 16"
  using first_pixel_val [of a b]
  by (simp add: h2v2_first_pixel_def colsum_def GETJSAMPLE_def Let_def mult.commute)

lemma last_pixel_val:
  fixes a b :: "8 word"
  shows "uint (word_of_int (drop_bit 4 ((uint a * 3 + uint b) * 4 + 7)) :: 8 word)
           = ((3 * uint a + uint b) * 4 + 7) div 16"
proof -
  have "0 \<le> uint a" "uint a < 256" "0 \<le> uint b" "uint b < 256"
    using u8_lt [of a] u8_lt [of b] by simp_all
  then have "0 \<le> (3 * uint a + uint b) * 4 + 7" "(3 * uint a + uint b) * 4 + 7 \<le> 4095"
    by simp_all
  then have "(((3 * uint a + uint b) * 4 + 7) div 16) mod 256 = ((3 * uint a + uint b) * 4 + 7) div 16"
    by (rule div16_mod256)
  then show ?thesis
    by (simp add: uint_word_of_int drop_bit_eq_div mult.commute)
qed

lemma uint_last_pixel: "uint (h2v2_last_pixel a b) = (colsum a b * 4 + 7) div 16"
  using last_pixel_val [of a b]
  by (simp add: h2v2_last_pixel_def colsum_def GETJSAMPLE_def Let_def mult.commute)

lemma width_offsets:
  fixes downsampled_width :: JDIMENSION
  assumes "unat downsampled_width = w" "0 < w" "w < 2 ^ 31"
  shows "uint (downsampled_width - 1) = int (w - 1)"
    and "uint (2 * downsampled_width - 1) = int (2 * w - 1)"
proof -
  have nz: "downsampled_width \<noteq> 0"
    using assms by (auto simp: unat_eq_zero)
  have "unat (downsampled_width - 1) = w - 1"
    using unat_minus_one [OF nz] assms(1) by simp
  then show "uint (downsampled_width - 1) = int (w - 1)"
    by (metis uint_nat)
  have d: "unat (2 * downsampled_width) = 2 * w"
    using unat_double [of downsampled_width] assms by simp
  with assms have nz2: "2 * downsampled_width \<noteq> 0"
    by (auto simp: unat_eq_zero)
  have "unat (2 * downsampled_width - 1) = 2 * w - 1"
    using unat_minus_one [OF nz2] d by simp
  then show "uint (2 * downsampled_width - 1) = int (2 * w - 1)"
    by (metis uint_nat)
qed

lemma h2v2_rowpair_correct:
  fixes downsampled_width :: JDIMENSION
  assumes w: "unat downsampled_width = w" "0 < w" "w < 2 ^ 31"
    and i0: "h2v2_in_cap w \<le> length inptr0" and i1: "h2v2_in_cap w \<le> length inptr1"
    and i2: "h2v2_in_cap w \<le> length inptr2"
    and o0: "h2v2_out_cap w \<le> length outptr0" and o1: "h2v2_out_cap w \<le> length outptr1"
  shows "\<exists>q0 q1.
      h2v2_rowpair downsampled_width inptr0 inptr1 inptr2 outptr0 outptr1 = Some (q0, q1)
      \<and> length q0 = length outptr0 \<and> length q1 = length outptr1
      \<and> (\<forall>j < 2 * w. uint (q0 ! j) = h2v2_ref_pixel w inptr1 inptr0 j)
      \<and> (\<forall>j < 2 * w. uint (q1 ! j) = h2v2_ref_pixel w inptr1 inptr2 j)"
proof -
  have il: "17 \<le> length inptr0" "17 \<le> length inptr1" "17 \<le> length inptr2"
    "w \<le> length inptr0" "w \<le> length inptr1" "w \<le> length inptr2"
    using in_cap_ge [of w] i0 i1 i2 by simp_all
  have ol: "33 \<le> length outptr0" "33 \<le> length outptr1"
    "2 * w \<le> length outptr0" "2 * w \<le> length outptr1"
    using out_cap_ge [of w] o0 o1 by simp_all
  define a0 where "a0 = outptr0[0 := h2v2_first_pixel (inptr1 ! 0) (inptr0 ! 0)]"
  define a1 where "a1 = outptr1[0 := h2v2_first_pixel (inptr1 ! 0) (inptr2 ! 0)]"
  have la: "length a0 = length outptr0" "length a1 = length outptr1"
    by (simp_all add: a0_def a1_def)
  have pos: "0 < length inptr0" "0 < length inptr1" "0 < length inptr2"
    "0 < length outptr0" "0 < length outptr1"
    using il ol by linarith+
  have ld: "load_u8 inptr0 0 = Some (inptr0 ! 0)" "load_u8 inptr1 0 = Some (inptr1 ! 0)"
    "load_u8 inptr2 0 = Some (inptr2 ! 0)"
    using pos by (simp_all add: load_u8_def)
  have st: "store_u8 outptr0 0 (h2v2_first_pixel (inptr1 ! 0) (inptr0 ! 0)) = Some a0"
    "store_u8 outptr1 0 (h2v2_first_pixel (inptr1 ! 0) (inptr2 ! 0)) = Some a1"
    using pos by (simp_all add: store_u8_def a0_def a1_def)
  have "\<exists>p0 p1.
      h2v2_block inptr0 inptr1 inptr2 0 1 a0 a1 1 = Some (p0, p1)
      \<and> length p0 = length a0 \<and> length p1 = length a1
      \<and> (\<forall>j < length a0. if 1 \<le> j \<and> j < 33
            then uint (p0 ! j) = h2v2_interior inptr1 inptr0 j else p0 ! j = a0 ! j)
      \<and> (\<forall>j < length a1. if 1 \<le> j \<and> j < 33
            then uint (p1 ! j) = h2v2_interior inptr1 inptr2 j else p1 ! j = a1 ! j)"
    using h2v2_block_correct [of 0 inptr0 inptr1 inptr2 a0 a1] il ol la by simp
  then obtain p0 p1 where blk:
    "h2v2_block inptr0 inptr1 inptr2 0 1 a0 a1 1 = Some (p0, p1)"
    "length p0 = length a0" "length p1 = length a1"
    "\<forall>j < length a0. if 1 \<le> j \<and> j < 33
        then uint (p0 ! j) = h2v2_interior inptr1 inptr0 j else p0 ! j = a0 ! j"
    "\<forall>j < length a1. if 1 \<le> j \<and> j < 33
        then uint (p1 ! j) = h2v2_interior inptr1 inptr2 j else p1 ! j = a1 ! j"
    by blast
  have pl: "h2v2_out_cap w \<le> length p0" "h2v2_out_cap w \<le> length p1"
    using o0 o1 blk(2,3) la by simp_all
  have p00: "p0 ! 0 = h2v2_first_pixel (inptr1 ! 0) (inptr0 ! 0)"
    "p1 ! 0 = h2v2_first_pixel (inptr1 ! 0) (inptr2 ! 0)"
    using blk(4) [rule_format, of 0] blk(5) [rule_format, of 0] pos la
    by (simp_all add: a0_def a1_def)
  have pinv0: "uint (p0 ! j) = h2v2_interior inptr1 inptr0 j" if "1 \<le> j" "j \<le> 2 * 16 - 2" for j
    using blk(4) [rule_format, of j] that ol la by simp
  have pinv1: "uint (p1 ! j) = h2v2_interior inptr1 inptr2 j" if "1 \<le> j" "j \<le> 2 * 16 - 2" for j
    using blk(5) [rule_format, of j] that ol la by simp
  have c16: "unat (16 :: JDIMENSION) = 16" "(16::nat) \<le> 16" "(16::nat) dvd 16"
    by simp_all
  from h2v2_cols_correct [OF w(1,3) i0 i1 i2 pl c16 pinv0 pinv1]
  obtain q0 q1 where cols:
    "h2v2_cols downsampled_width inptr0 inptr1 inptr2 16 p0 p1 = Some (q0, q1)"
    "length q0 = length p0" "length q1 = length p1"
    "q0 ! 0 = p0 ! 0" "q1 ! 0 = p1 ! 0"
    "\<forall>j. 1 \<le> j \<and> j \<le> 2 * w - 2 \<longrightarrow> uint (q0 ! j) = h2v2_interior inptr1 inptr0 j"
    "\<forall>j. 1 \<le> j \<and> j \<le> 2 * w - 2 \<longrightarrow> uint (q1 ! j) = h2v2_interior inptr1 inptr2 j"
    by blast
  have ql: "length q0 = length outptr0" "length q1 = length outptr1"
    using cols(2,3) blk(2,3) la by simp_all
  note wo = width_offsets [OF w]
  have wl: "w - 1 < length inptr0" "w - 1 < length inptr1" "w - 1 < length inptr2"
    "2 * w - 1 < length q0" "2 * w - 1 < length q1"
    using il ol ql w(2) by linarith+
  define c0 where "c0 = inptr0 ! (w - 1)"
  define c1 where "c1 = inptr1 ! (w - 1)"
  define c2 where "c2 = inptr2 ! (w - 1)"
  have ldz: "load_u8 inptr0 (uint (downsampled_width - 1)) = Some c0"
    "load_u8 inptr1 (uint (downsampled_width - 1)) = Some c1"
    "load_u8 inptr2 (uint (downsampled_width - 1)) = Some c2"
    unfolding wo c0_def c1_def c2_def
    by (rule load_u8_Some [OF wl(1)], rule load_u8_Some [OF wl(2)], rule load_u8_Some [OF wl(3)])
  define z0 where "z0 = q0[2 * w - 1 := h2v2_last_pixel c1 c0]"
  define z1 where "z1 = q1[2 * w - 1 := h2v2_last_pixel c1 c2]"
  have stz: "store_u8 q0 (uint (2 * downsampled_width - 1)) (h2v2_last_pixel c1 c0) = Some z0"
    "store_u8 q1 (uint (2 * downsampled_width - 1)) (h2v2_last_pixel c1 c2) = Some z1"
    unfolding wo z0_def z1_def
    by (rule store_u8_Some [OF wl(4)], rule store_u8_Some [OF wl(5)])
  have run: "h2v2_rowpair downsampled_width inptr0 inptr1 inptr2 outptr0 outptr1 = Some (z0, z1)"
    by (simp add: h2v2_rowpair_def ld st blk(1) cols(1) ldz stz)
  have zl: "length z0 = length outptr0" "length z1 = length outptr1"
    using ql by (simp_all add: z0_def z1_def)
  have px0: "uint (z0 ! j) = h2v2_ref_pixel w inptr1 inptr0 j" if jw: "j < 2 * w" for j
  proof -
    consider "j = 2 * w - 1" | "j = 0" "j \<noteq> 2 * w - 1" | "1 \<le> j" "j \<le> 2 * w - 2"
      using jw by linarith
    then show ?thesis
    proof cases
      case 1
      with wl(4) w(2) show ?thesis
        by (simp add: z0_def h2v2_ref_pixel_def uint_last_pixel c0_def c1_def)
    next
      case 2
      then show ?thesis
        by (simp add: z0_def h2v2_ref_pixel_def cols(4) p00 uint_first_pixel)
    next
      case 3
      then have "j \<noteq> 0" "j \<noteq> 2 * w - 1"
        by simp_all
      with 3 cols(6) show ?thesis
        by (simp add: z0_def h2v2_ref_pixel_def)
    qed
  qed
  have px1: "uint (z1 ! j) = h2v2_ref_pixel w inptr1 inptr2 j" if jw: "j < 2 * w" for j
  proof -
    consider "j = 2 * w - 1" | "j = 0" "j \<noteq> 2 * w - 1" | "1 \<le> j" "j \<le> 2 * w - 2"
      using jw by linarith
    then show ?thesis
    proof cases
      case 1
      with wl(5) w(2) show ?thesis
        by (simp add: z1_def h2v2_ref_pixel_def uint_last_pixel c1_def c2_def)
    next
      case 2
      then show ?thesis
        by (simp add: z1_def h2v2_ref_pixel_def cols(5) p00 uint_first_pixel)
    next
      case 3
      then have "j \<noteq> 0" "j \<noteq> 2 * w - 1"
        by simp_all
      with 3 cols(7) show ?thesis
        by (simp add: z1_def h2v2_ref_pixel_def)
    qed
  qed
  from run zl px0 px1 show ?thesis
    by simp
qed

lemma row_okE:
  assumes "row_ok tbl cap k"
  obtains row where "tbl k = Some row" "cap \<le> length row"
  using assms by (auto simp: row_ok_def split: option.splits)

lemma h2v2_rows_correct:
  fixes downsampled_width :: JDIMENSION
  assumes w: "unat downsampled_width = w" "0 < w" "w < 2 ^ 31"
    and m: "max_v < INT_MAX"
    and i0: "0 \<le> i0"
    and inp: "\<And>i. i0 \<le> i \<Longrightarrow> 2 * i < max_v \<Longrightarrow>
        row_ok input_data (h2v2_in_cap w) (i - 1) \<and> row_ok input_data (h2v2_in_cap w) i
          \<and> row_ok input_data (h2v2_in_cap w) (i + 1)"
    and outp: "\<And>i. i0 \<le> i \<Longrightarrow> 2 * i < max_v \<Longrightarrow>
        row_ok output_data (h2v2_out_cap w) (2 * i)
          \<and> row_ok output_data (h2v2_out_cap w) (2 * i + 1)"
  shows "\<exists>out.
      h2v2_rows max_v downsampled_width input_data i0 (2 * i0) output_data = Some out
      \<and> (\<forall>r. r < 2 * i0 \<longrightarrow> out r = output_data r)
      \<and> (\<forall>i. i0 \<le> i \<and> 2 * i < max_v \<longrightarrow> h2v2_pair_ok w input_data out i)"
  using i0 inp outp
proof (induction "nat (max_v - 2 * i0)" arbitrary: i0 output_data rule: less_induct)
  case less
  show ?case
  proof (cases "2 * i0 < max_v")
    case False
    then have "h2v2_rows max_v downsampled_width input_data i0 (2 * i0) output_data
        = Some output_data"
      by (subst h2v2_rows.simps) simp
    with False show ?thesis
      by auto
  next
    case True
    from less.prems(2) [OF order_refl True]
    obtain above cur below where rows:
      "input_data (i0 - 1) = Some above" "h2v2_in_cap w \<le> length above"
      "input_data i0 = Some cur" "h2v2_in_cap w \<le> length cur"
      "input_data (i0 + 1) = Some below" "h2v2_in_cap w \<le> length below"
      by (auto elim!: row_okE)
    from less.prems(3) [OF order_refl True]
    obtain o0 o1 where outs:
      "output_data (2 * i0) = Some o0" "h2v2_out_cap w \<le> length o0"
      "output_data (2 * i0 + 1) = Some o1" "h2v2_out_cap w \<le> length o1"
      by (auto elim!: row_okE)
    from h2v2_rowpair_correct [OF w rows(2,4,6) outs(2,4)]
    obtain q0 q1 where pair:
      "h2v2_rowpair downsampled_width above cur below o0 o1 = Some (q0, q1)"
      "length q0 = length o0" "length q1 = length o1"
      "\<forall>j < 2 * w. uint (q0 ! j) = h2v2_ref_pixel w cur above j"
      "\<forall>j < 2 * w. uint (q1 ! j) = h2v2_ref_pixel w cur below j"
      by blast
    define output_data' where
      "output_data' = output_data(2 * i0 \<mapsto> q0, 2 * i0 + 1 \<mapsto> q1)"
    have noflow: "2 * i0 + 2 \<le> INT_MAX" "i0 < INT_MAX"
      using True m less.prems(1) by simp_all
    have step: "h2v2_rows max_v downsampled_width input_data i0 (2 * i0) output_data
        = h2v2_rows max_v downsampled_width input_data (i0 + 1) (2 * i0 + 2) output_data'"
      using noflow
      by (subst h2v2_rows.simps) (simp add: True rows outs pair(1) output_data'_def)
    have e: "2 * (i0 + 1) = 2 * i0 + 2"
      by simp
    have meas: "nat (max_v - 2 * (i0 + 1)) < nat (max_v - 2 * i0)"
      using True by simp
    have i0': "0 \<le> i0 + 1"
      using less.prems(1) by simp
    have inp': "row_ok input_data (h2v2_in_cap w) (i - 1) \<and> row_ok input_data (h2v2_in_cap w) i
          \<and> row_ok input_data (h2v2_in_cap w) (i + 1)" if "i0 + 1 \<le> i" "2 * i < max_v" for i
      using less.prems(2) [of i] that by simp
    have outp': "row_ok output_data' (h2v2_out_cap w) (2 * i)
          \<and> row_ok output_data' (h2v2_out_cap w) (2 * i + 1)" if "i0 + 1 \<le> i" "2 * i < max_v" for i
      using less.prems(3) [of i] that by (simp add: output_data'_def row_ok_def)
    from less.hyps [OF meas i0' inp' outp', unfolded e]
    obtain out where rec:
      "h2v2_rows max_v downsampled_width input_data (i0 + 1) (2 * i0 + 2) output_data' = Some out"
      "\<forall>r. r < 2 * i0 + 2 \<longrightarrow> out r = output_data' r"
      "\<forall>i. i0 + 1 \<le> i \<and> 2 * i < max_v \<longrightarrow> h2v2_pair_ok w input_data out i"
      by blast
    have here: "out (2 * i0) = Some q0" "out (2 * i0 + 1) = Some q1"
      using rec(2) by (simp_all add: output_data'_def)
    have before: "out r = output_data r" if "r < 2 * i0" for r
      using rec(2) that by (simp add: output_data'_def)
    have len: "2 * w \<le> length q0" "2 * w \<le> length q1"
      using out_cap_ge(2) [of w] outs(2,4) pair(2,3) by simp_all
    have ok0: "h2v2_pair_ok w input_data out i0"
      unfolding h2v2_pair_ok_def using rows(1,3,5) here len pair(4,5) by simp
    have ok: "h2v2_pair_ok w input_data out i" if "i0 \<le> i" "2 * i < max_v" for i
    proof (cases "i = i0")
      case True
      with ok0 show ?thesis by simp
    next
      case False
      with that have "i0 + 1 \<le> i"
        by simp
      with rec(3) that show ?thesis
        by simp
    qed
    from step rec(1) before ok show ?thesis
      by simp
  qed
qed

lemma h2v2_correct:
  assumes "h2v2_valid max_v downsampled_width input_data output_data"
  shows "\<exists>out.
      jsimd_h2v2_fancy_upsample_neon max_v downsampled_width input_data output_data = Some out
      \<and> (\<forall>i. 0 \<le> i \<and> 2 * i < max_v
            \<longrightarrow> h2v2_pair_ok (unat downsampled_width) input_data out i)"
proof -
  define w where "w = unat downsampled_width"
  have w: "unat downsampled_width = w" "0 < w" "w < 2 ^ 31" and m: "max_v < INT_MAX"
    using assms by (simp_all add: h2v2_valid_def w_def)
  have rng: "i \<in> {0 .. (max_v - 1) div 2}" if "0 \<le> i" "2 * i < max_v" for i
    using that by simp
  have inp: "row_ok input_data (h2v2_in_cap w) (i - 1) \<and> row_ok input_data (h2v2_in_cap w) i
      \<and> row_ok input_data (h2v2_in_cap w) (i + 1)" if "0 \<le> i" "2 * i < max_v" for i
    using assms rng [OF that] unfolding h2v2_valid_def w_def by blast
  have outp: "row_ok output_data (h2v2_out_cap w) (2 * i)
      \<and> row_ok output_data (h2v2_out_cap w) (2 * i + 1)" if "0 \<le> i" "2 * i < max_v" for i
    using assms rng [OF that] unfolding h2v2_valid_def w_def by blast
  from h2v2_rows_correct [OF w m order_refl inp outp]
  show ?thesis
    unfolding jsimd_h2v2_fancy_upsample_neon_def w_def by auto
qed

lemma div4_mod256:
  fixes k :: int
  assumes "0 \<le> k" "k \<le> 1023"
  shows "(k div 4) mod 256 = k div 4"
  using assms by (intro mod_pos_pos_trivial) simp_all

lemma shrn2_lane:
  fixes x :: "16 word"
  assumes "uint x \<le> 1023"
  shows "uint (ucast (drop_bit 2 x) :: 8 word) = uint x div 4"
proof -
  have "uint (ucast (drop_bit 2 x) :: 8 word) = (uint x div 4) mod 256"
    by (simp add: unsigned_ucast_eq unsigned_drop_bit_eq take_bit_eq_mod drop_bit_eq_div
        uint_div_distrib)
  also have "\<dots> = uint x div 4"
    using assms by (intro div4_mod256) simp_all
  finally show ?thesis .
qed

lemma rshrn2_nat:
  fixes n :: nat
  assumes "n \<le> 1021"
  shows "uint (word_of_nat (drop_bit 2 (n + 2 ^ (2 - 1))) :: 8 word) = (int n + 2) div 4"
proof -
  have "uint (word_of_nat (drop_bit 2 (n + 2 ^ (2 - 1))) :: 8 word)
      = int (((n + 2) div 4) mod 256)"
    by (simp add: unsigned_of_nat take_bit_eq_mod drop_bit_eq_div)
  also have "((n + 2) div 4) mod 256 = (n + 2) div 4"
    using assms by simp
  also have "int ((n + 2) div 4) = (int n + 2) div 4"
    by simp
  finally show ?thesis .
qed

lemma rshrn2_lane:
  fixes x :: "16 word"
  assumes "uint x \<le> 1021"
  shows "uint (word_of_nat (drop_bit 2 (unat x + 2 ^ (2 - 1))) :: 8 word) = (uint x + 2) div 4"
proof -
  have "int (unat x) = uint x"
    by simp
  moreover from this assms have "unat x \<le> 1021"
    by linarith
  ultimately show ?thesis
    using rshrn2_nat [of "unat x"] by simp
qed

lemma uint_wcolsum_plus1: "uint (wcolsum r1 r0 + 1) = 3 * uint r1 + uint r0 + 1"
proof -
  have "uint (wcolsum r1 r0) \<le> 1020"
    by (rule wcolsum_le)
  then show ?thesis
    by (simp add: uint_word_ariths mod_pos_pos_trivial uint_wcolsum)
qed

lemma h1v2_top_val:
  "uint (ucast (drop_bit 2 (wcolsum r1 r0 + 1)) :: 8 word) = (colsum r1 r0 + 1) div 4"
proof -
  have "uint (wcolsum r1 r0 + 1) \<le> 1023"
    using wcolsum_le [of r1 r0] by (simp add: uint_wcolsum_plus1 uint_wcolsum)
  then show ?thesis
    by (simp add: shrn2_lane uint_wcolsum_plus1 colsum_def GETJSAMPLE_def)
qed

lemma h1v2_bottom_val:
  "uint (word_of_nat (drop_bit 2 (unat (wcolsum r1 r2) + 2 ^ (2 - 1))) :: 8 word)
     = (colsum r1 r2 + 2) div 4"
proof -
  have "uint (wcolsum r1 r2) \<le> 1021"
    using wcolsum_le [of r1 r2] by simp
  then have "uint (word_of_nat (drop_bit 2 (unat (wcolsum r1 r2) + 2 ^ (2 - 1))) :: 8 word)
     = (uint (wcolsum r1 r2) + 2) div 4"
    by (rule rshrn2_lane)
  then show ?thesis
    by (simp add: uint_wcolsum colsum_def GETJSAMPLE_def)
qed

lemma add_one_pair_nth:
  assumes "length l = 8" "length h = 8" "m < 16"
  shows "(vaddq_u16 l one_u16 @ vaddq_u16 h one_u16) ! m = (l @ h) ! m + 1"
  using assms
  by (cases "m < 8")
    (simp_all add: nth_append length_vaddq_u16 nth_vaddq_u16 one_u16_def vdupq_n_u16_def)

lemma length_add_one:
  "length l = 8 \<Longrightarrow> length (vaddq_u16 l one_u16) = 8"
  by (simp add: length_vaddq_u16 one_u16_def vdupq_n_u16_def)

lemma h1v2_pixels_lanes:
  assumes "length r0 = 16" "length r1 = 16" "length r2 = 16" "m < 16"
  shows "uint (fst (h1v2_pixels r0 r1 r2) ! m) = (colsum (r1 ! m) (r0 ! m) + 1) div 4"
    and "uint (snd (h1v2_pixels r0 r1 r2) ! m) = (colsum (r1 ! m) (r2 ! m) + 2) div 4"
  using assms unfolding h1v2_pixels_def Let_def fst_conv snd_conv
  by (simp_all only: shrn_pair_nth rshrn_pair_nth length_add_one length_colsum_half
      add_one_pair_nth colsum_pair_nth h1v2_top_val h1v2_bottom_val)

lemma h1v2_pixels_lengths:
  assumes "length r0 = 16" "length r1 = 16" "length r2 = 16"
  shows "length (fst (h1v2_pixels r0 r1 r2)) = 16" "length (snd (h1v2_pixels r0 r1 r2)) = 16"
  using assms
  by (simp_all add: h1v2_pixels_def Let_def vcombine_u8_def length_vshrn length_vrshrn
      length_add_one length_colsum_half)

lemma vst1q_u8_Some:
  assumes "length v = 16" "k + 16 \<le> length p"
  shows "\<exists>p'. vst1q_u8 p (int k) v = Some p' \<and> length p' = length p \<and>
           (\<forall>j < length p. p' ! j = (if k \<le> j \<and> j < k + 16 then v ! (j - k) else p ! j))"
proof -
  from assms have fits: "k + length v \<le> length p"
    by simp
  let ?p' = "take k p @ v @ drop (k + length v) p"
  have "vst1q_u8 p (int k) v = Some ?p'"
    unfolding vst1q_u8_def by (rule store_bytes_Some [OF fits])
  moreover have "length ?p' = length p"
    by (rule length_stored [OF fits])
  moreover have "?p' ! j = (if k \<le> j \<and> j < k + 16 then v ! (j - k) else p ! j)"
    if "j < length p" for j
    using nth_stored [OF fits that] assms(1) by simp
  ultimately show ?thesis
    by blast
qed

lemma unat_add16_wide:
  fixes c :: "32 word"
  assumes "unat c + 16 < 2 ^ 32"
  shows "unat (c + 16) = unat c + 16"
  using assms by (simp add: unat_word_ariths)

lemma h1v2_cap_step:
  assumes "16 dvd n" "n < w"
  shows "n + 16 \<le> h1v2_cap w"
proof -
  from assms obtain q where q: "n = 16 * q"
    by (auto simp: dvd_def)
  with assms have "q + 1 \<le> (w + 15) div 16"
    by (intro ceil16_step) simp
  then have "16 * q + 16 \<le> 16 * ((w + 15) div 16)"
    by simp
  with q show ?thesis
    by (simp add: h1v2_cap_def)
qed

lemma h1v2_cap_ge: "w \<le> h1v2_cap w"
  unfolding h1v2_cap_def by linarith

lemma h1v2_cols_correct:
  fixes downsampled_width colctr :: JDIMENSION
  assumes w: "unat downsampled_width = w" "w + 16 \<le> 2 ^ 32"
    and i0: "h1v2_cap w \<le> length inptr0" and i1: "h1v2_cap w \<le> length inptr1"
    and i2: "h1v2_cap w \<le> length inptr2"
    and o0: "h1v2_cap w \<le> length outptr0" and o1: "h1v2_cap w \<le> length outptr1"
    and n: "unat colctr = n" "16 dvd n"
    and inv0: "\<And>j. j < n \<Longrightarrow> uint (outptr0 ! j) = h1v2_top inptr1 inptr0 j"
    and inv1: "\<And>j. j < n \<Longrightarrow> uint (outptr1 ! j) = h1v2_bottom inptr1 inptr2 j"
  shows "\<exists>q0 q1.
      h1v2_cols downsampled_width inptr0 inptr1 inptr2 colctr outptr0 outptr1 = Some (q0, q1)
      \<and> length q0 = length outptr0 \<and> length q1 = length outptr1
      \<and> (\<forall>j < w. uint (q0 ! j) = h1v2_top inptr1 inptr0 j)
      \<and> (\<forall>j < w. uint (q1 ! j) = h1v2_bottom inptr1 inptr2 j)"
  using o0 o1 n inv0 inv1
proof (induction "w + 16 - n" arbitrary: n colctr outptr0 outptr1 rule: less_induct)
  case less
  note n = less.prems(3,4)
  show ?case
  proof (cases "n < w")
    case False
    then have "\<not> colctr < downsampled_width"
      by (simp add: word_less_nat_alt w n)
    then have "h1v2_cols downsampled_width inptr0 inptr1 inptr2 colctr outptr0 outptr1
        = Some (outptr0, outptr1)"
      by (subst h1v2_cols.simps) simp
    moreover from False have "j < n" if "j < w" for j
      using that by simp
    ultimately show ?thesis
      using less.prems(5,6) by simp
  next
    case True
    then have lt: "colctr < downsampled_width"
      by (simp add: word_less_nat_alt w n)
    have uc: "uint colctr = int n"
      unfolding n(1) [symmetric] by simp
    have "n + 16 \<le> h1v2_cap w"
      by (rule h1v2_cap_step [OF n(2) True])
    with i0 i1 i2 less.prems(1,2) have inb: "n + 16 \<le> length inptr0" "n + 16 \<le> length inptr1"
      "n + 16 \<le> length inptr2" and outb: "n + 16 \<le> length outptr0" "n + 16 \<le> length outptr1"
      by simp_all
    define r0 where "r0 = take 16 (drop n inptr0)"
    define r1 where "r1 = take 16 (drop n inptr1)"
    define r2 where "r2 = take 16 (drop n inptr2)"
    have lens: "length r0 = 16" "length r1 = 16" "length r2 = 16"
      using inb by (simp_all add: r0_def r1_def r2_def)
    have lanes: "r0 ! m = inptr0 ! (n + m)" "r1 ! m = inptr1 ! (n + m)"
      "r2 ! m = inptr2 ! (n + m)" if "m < 16" for m
      using inb that by (simp_all add: r0_def r1_def r2_def)
    have loads: "vld1q_u8 inptr0 (uint colctr) = Some r0" "vld1q_u8 inptr1 (uint colctr) = Some r1"
      "vld1q_u8 inptr2 (uint colctr) = Some r2"
      unfolding uc r0_def r1_def r2_def
      by (rule vld1q_u8_Some [OF inb(1)], rule vld1q_u8_Some [OF inb(2)],
          rule vld1q_u8_Some [OF inb(3)])
    note plen = h1v2_pixels_lengths [OF lens]
    from vst1q_u8_Some [OF plen(1) outb(1)]
    obtain p0 where p0: "vst1q_u8 outptr0 (uint colctr) (fst (h1v2_pixels r0 r1 r2)) = Some p0"
      "length p0 = length outptr0"
      "\<And>j. j < length outptr0 \<Longrightarrow> p0 ! j =
          (if n \<le> j \<and> j < n + 16 then fst (h1v2_pixels r0 r1 r2) ! (j - n) else outptr0 ! j)"
      unfolding uc by auto
    from vst1q_u8_Some [OF plen(2) outb(2)]
    obtain p1 where p1: "vst1q_u8 outptr1 (uint colctr) (snd (h1v2_pixels r0 r1 r2)) = Some p1"
      "length p1 = length outptr1"
      "\<And>j. j < length outptr1 \<Longrightarrow> p1 ! j =
          (if n \<le> j \<and> j < n + 16 then snd (h1v2_pixels r0 r1 r2) ! (j - n) else outptr1 ! j)"
      unfolding uc by auto
    have wide: "unat colctr + 16 < 2 ^ 32"
      using True w(2) unfolding n(1) by simp
    have n': "unat (colctr + 16) = n + 16" "16 dvd (n + 16)"
      using unat_add16_wide [OF wide] n(2) unfolding n(1) by simp_all
    have caps': "h1v2_cap w \<le> length p0" "h1v2_cap w \<le> length p1"
      using less.prems(1,2) p0(2) p1(2) by simp_all
    have inv0': "uint (p0 ! j) = h1v2_top inptr1 inptr0 j" if jn: "j < n + 16" for j
    proof (cases "n \<le> j")
      case True
      with jn have m: "j - n < 16" and e: "n + (j - n) = j"
        by simp_all
      from jn outb have "j < length outptr0"
        by simp
      from p0(3) [OF this] True jn have "p0 ! j = fst (h1v2_pixels r0 r1 r2) ! (j - n)"
        by simp
      with h1v2_pixels_lanes(1) [OF lens m] show ?thesis
        by (simp add: lanes [OF m] e h1v2_top_def)
    next
      case False
      from jn outb have "j < length outptr0"
        by simp
      from p0(3) [OF this] False have "p0 ! j = outptr0 ! j"
        by simp
      with less.prems(5) [of j] False show ?thesis
        by simp
    qed
    have inv1': "uint (p1 ! j) = h1v2_bottom inptr1 inptr2 j" if jn: "j < n + 16" for j
    proof (cases "n \<le> j")
      case True
      with jn have m: "j - n < 16" and e: "n + (j - n) = j"
        by simp_all
      from jn outb have "j < length outptr1"
        by simp
      from p1(3) [OF this] True jn have "p1 ! j = snd (h1v2_pixels r0 r1 r2) ! (j - n)"
        by simp
      with h1v2_pixels_lanes(2) [OF lens m] show ?thesis
        by (simp add: lanes [OF m] e h1v2_bottom_def)
    next
      case False
      from jn outb have "j < length outptr1"
        by simp
      from p1(3) [OF this] False have "p1 ! j = outptr1 ! j"
        by simp
      with less.prems(6) [of j] False show ?thesis
        by simp
    qed
    have "w + 16 - (n + 16) < w + 16 - n"
      using True by simp
    from less.hyps [OF this caps' n' inv0' inv1']
    obtain q0 q1 where rec:
      "h1v2_cols downsampled_width inptr0 inptr1 inptr2 (colctr + 16) p0 p1 = Some (q0, q1)"
      "length q0 = length p0" "length q1 = length p1"
      "\<forall>j < w. uint (q0 ! j) = h1v2_top inptr1 inptr0 j"
      "\<forall>j < w. uint (q1 ! j) = h1v2_bottom inptr1 inptr2 j"
      by blast
    have "h1v2_cols downsampled_width inptr0 inptr1 inptr2 colctr outptr0 outptr1 = Some (q0, q1)"
      by (subst h1v2_cols.simps) (simp add: lt loads p0(1) p1(1) rec(1) Let_def)
    with rec p0(2) p1(2) show ?thesis
      by simp
  qed
qed

lemma h1v2_rows_correct:
  fixes downsampled_width :: JDIMENSION
  assumes w: "unat downsampled_width = w" "w + 16 \<le> 2 ^ 32"
    and m: "max_v < INT_MAX"
    and i0: "0 \<le> i0"
    and inp: "\<And>i. i0 \<le> i \<Longrightarrow> 2 * i < max_v \<Longrightarrow>
        row_ok input_data (h1v2_cap w) (i - 1) \<and> row_ok input_data (h1v2_cap w) i
          \<and> row_ok input_data (h1v2_cap w) (i + 1)"
    and outp: "\<And>i. i0 \<le> i \<Longrightarrow> 2 * i < max_v \<Longrightarrow>
        row_ok output_data (h1v2_cap w) (2 * i) \<and> row_ok output_data (h1v2_cap w) (2 * i + 1)"
  shows "\<exists>out.
      h1v2_rows max_v downsampled_width input_data i0 (2 * i0) output_data = Some out
      \<and> (\<forall>r. r < 2 * i0 \<longrightarrow> out r = output_data r)
      \<and> (\<forall>i. i0 \<le> i \<and> 2 * i < max_v \<longrightarrow> h1v2_pair_ok w input_data out i)"
  using i0 inp outp
proof (induction "nat (max_v - 2 * i0)" arbitrary: i0 output_data rule: less_induct)
  case less
  show ?case
  proof (cases "2 * i0 < max_v")
    case False
    then have "h1v2_rows max_v downsampled_width input_data i0 (2 * i0) output_data
        = Some output_data"
      by (subst h1v2_rows.simps) simp
    with False show ?thesis
      by auto
  next
    case True
    from less.prems(2) [OF order_refl True]
    obtain above cur below where rows:
      "input_data (i0 - 1) = Some above" "h1v2_cap w \<le> length above"
      "input_data i0 = Some cur" "h1v2_cap w \<le> length cur"
      "input_data (i0 + 1) = Some below" "h1v2_cap w \<le> length below"
      by (auto elim!: row_okE)
    from less.prems(3) [OF order_refl True]
    obtain o0 o1 where outs:
      "output_data (2 * i0) = Some o0" "h1v2_cap w \<le> length o0"
      "output_data (2 * i0 + 1) = Some o1" "h1v2_cap w \<le> length o1"
      by (auto elim!: row_okE)
    have c0: "unat (0 :: JDIMENSION) = 0" "(16::nat) dvd 0"
      by simp_all
    have none0: "uint (o0 ! j) = h1v2_top cur above j" if "j < 0" for j :: nat
      using that by simp
    have none1: "uint (o1 ! j) = h1v2_bottom cur below j" if "j < 0" for j :: nat
      using that by simp
    from h1v2_cols_correct [OF w rows(2,4,6) outs(2,4) c0 none0 none1]
    obtain q0 q1 where pair:
      "h1v2_cols downsampled_width above cur below 0 o0 o1 = Some (q0, q1)"
      "length q0 = length o0" "length q1 = length o1"
      "\<forall>j < w. uint (q0 ! j) = h1v2_top cur above j"
      "\<forall>j < w. uint (q1 ! j) = h1v2_bottom cur below j"
      by blast
    define output_data' where
      "output_data' = output_data(2 * i0 \<mapsto> q0, 2 * i0 + 1 \<mapsto> q1)"
    have noflow: "2 * i0 + 2 \<le> INT_MAX" "i0 < INT_MAX"
      using True m less.prems(1) by simp_all
    have step: "h1v2_rows max_v downsampled_width input_data i0 (2 * i0) output_data
        = h1v2_rows max_v downsampled_width input_data (i0 + 1) (2 * i0 + 2) output_data'"
      using noflow
      by (subst h1v2_rows.simps) (simp add: True rows outs pair(1) output_data'_def)
    have e: "2 * (i0 + 1) = 2 * i0 + 2"
      by simp
    have meas: "nat (max_v - 2 * (i0 + 1)) < nat (max_v - 2 * i0)"
      using True by simp
    have i0': "0 \<le> i0 + 1"
      using less.prems(1) by simp
    have inp': "row_ok input_data (h1v2_cap w) (i - 1) \<and> row_ok input_data (h1v2_cap w) i
          \<and> row_ok input_data (h1v2_cap w) (i + 1)" if "i0 + 1 \<le> i" "2 * i < max_v" for i
      using less.prems(2) [of i] that by simp
    have outp': "row_ok output_data' (h1v2_cap w) (2 * i)
          \<and> row_ok output_data' (h1v2_cap w) (2 * i + 1)" if "i0 + 1 \<le> i" "2 * i < max_v" for i
      using less.prems(3) [of i] that by (simp add: output_data'_def row_ok_def)
    from less.hyps [OF meas i0' inp' outp', unfolded e]
    obtain out where rec:
      "h1v2_rows max_v downsampled_width input_data (i0 + 1) (2 * i0 + 2) output_data' = Some out"
      "\<forall>r. r < 2 * i0 + 2 \<longrightarrow> out r = output_data' r"
      "\<forall>i. i0 + 1 \<le> i \<and> 2 * i < max_v \<longrightarrow> h1v2_pair_ok w input_data out i"
      by blast
    have here: "out (2 * i0) = Some q0" "out (2 * i0 + 1) = Some q1"
      using rec(2) by (simp_all add: output_data'_def)
    have before: "out r = output_data r" if "r < 2 * i0" for r
      using rec(2) that by (simp add: output_data'_def)
    have len: "w \<le> length q0" "w \<le> length q1"
      using h1v2_cap_ge [of w] outs(2,4) pair(2,3) by simp_all
    have ok0: "h1v2_pair_ok w input_data out i0"
      unfolding h1v2_pair_ok_def using rows(1,3,5) here len pair(4,5) by simp
    have ok: "h1v2_pair_ok w input_data out i" if "i0 \<le> i" "2 * i < max_v" for i
    proof (cases "i = i0")
      case True
      with ok0 show ?thesis by simp
    next
      case False
      with that have "i0 + 1 \<le> i"
        by simp
      with rec(3) that show ?thesis
        by simp
    qed
    from step rec(1) before ok show ?thesis
      by simp
  qed
qed

lemma h1v2_correct:
  assumes "h1v2_valid max_v downsampled_width input_data output_data"
  shows "\<exists>out.
      jsimd_h1v2_fancy_upsample_neon max_v downsampled_width input_data output_data = Some out
      \<and> (\<forall>i. 0 \<le> i \<and> 2 * i < max_v
            \<longrightarrow> h1v2_pair_ok (unat downsampled_width) input_data out i)"
proof -
  define w where "w = unat downsampled_width"
  have w: "unat downsampled_width = w" "w + 16 \<le> 2 ^ 32" and m: "max_v < INT_MAX"
    using assms by (simp_all add: h1v2_valid_def w_def)
  have rng: "i \<in> {0 .. (max_v - 1) div 2}" if "0 \<le> i" "2 * i < max_v" for i
    using that by simp
  have inp: "row_ok input_data (h1v2_cap w) (i - 1) \<and> row_ok input_data (h1v2_cap w) i
      \<and> row_ok input_data (h1v2_cap w) (i + 1)" if "0 \<le> i" "2 * i < max_v" for i
    using assms rng [OF that] unfolding h1v2_valid_def w_def by blast
  have outp: "row_ok output_data (h1v2_cap w) (2 * i)
      \<and> row_ok output_data (h1v2_cap w) (2 * i + 1)" if "0 \<le> i" "2 * i < max_v" for i
    using assms rng [OF that] unfolding h1v2_valid_def w_def by blast
  from h1v2_rows_correct [OF w m order_refl inp outp]
  show ?thesis
    unfolding jsimd_h1v2_fancy_upsample_neon_def w_def by auto
qed

lemma ex_h2v2_valid: "h2v2_valid 2 3 ex_input ex_output"
  by (simp add: h2v2_valid_def row_ok_def ex_input_def ex_output_def ex_above_def ex_cur_def
      ex_below_def h2v2_in_cap_def h2v2_out_cap_def INT_MAX_def)

lemma ex_h1v2_valid: "h1v2_valid 2 3 ex_input ex_output"
  by (simp add: h1v2_valid_def row_ok_def ex_input_def ex_output_def ex_above_def ex_cur_def
      ex_below_def h1v2_cap_def INT_MAX_def)

lemma output_sample_Some:
  assumes "res = Some out" "out r = Some row" "j < length row"
  shows "output_sample res r j = Some (uint (row ! j))"
  using assms by (simp add: output_sample_def GETJSAMPLE_def)

lemma h2v2_output_sample:
  assumes "h2v2_valid max_v downsampled_width input_data output_data"
    and "0 \<le> i" "2 * i < max_v" "j < 2 * unat downsampled_width"
  shows "output_sample
           (jsimd_h2v2_fancy_upsample_neon max_v downsampled_width input_data output_data)
           (2 * i) j
         = Some (h2v2_ref_pixel (unat downsampled_width) (the (input_data i))
                   (the (input_data (i - 1))) j)
       \<and> output_sample
           (jsimd_h2v2_fancy_upsample_neon max_v downsampled_width input_data output_data)
           (2 * i + 1) j
         = Some (h2v2_ref_pixel (unat downsampled_width) (the (input_data i))
                   (the (input_data (i + 1))) j)"
proof -
  let ?res = "jsimd_h2v2_fancy_upsample_neon max_v downsampled_width input_data output_data"
  let ?w = "unat downsampled_width"
  from h2v2_correct [OF assms(1)] assms(2,3)
  obtain out where out: "?res = Some out" and ok: "h2v2_pair_ok ?w input_data out i"
    by blast
  from ok obtain cur above below top bottom where p:
    "input_data i = Some cur" "input_data (i - 1) = Some above"
    "input_data (i + 1) = Some below"
    "out (2 * i) = Some top" "out (2 * i + 1) = Some bottom"
    "2 * ?w \<le> length top" "2 * ?w \<le> length bottom"
    "\<forall>j < 2 * ?w. uint (top ! j) = h2v2_ref_pixel ?w cur above j"
    "\<forall>j < 2 * ?w. uint (bottom ! j) = h2v2_ref_pixel ?w cur below j"
    unfolding h2v2_pair_ok_def by blast
  have jt: "j < length top" and jb: "j < length bottom"
    using assms(4) p(6,7) by linarith+
  have "output_sample ?res (2 * i) j = Some (uint (top ! j))"
    by (rule output_sample_Some [OF out p(4) jt])
  moreover have "output_sample ?res (2 * i + 1) j = Some (uint (bottom ! j))"
    by (rule output_sample_Some [OF out p(5) jb])
  ultimately show ?thesis
    using p(8,9) assms(4) by (simp add: p(1,2,3))
qed

lemma h1v2_output_sample:
  assumes "h1v2_valid max_v downsampled_width input_data output_data"
    and "0 \<le> i" "2 * i < max_v" "j < unat downsampled_width"
  shows "output_sample
           (jsimd_h1v2_fancy_upsample_neon max_v downsampled_width input_data output_data)
           (2 * i) j
         = Some (h1v2_top (the (input_data i)) (the (input_data (i - 1))) j)
       \<and> output_sample
           (jsimd_h1v2_fancy_upsample_neon max_v downsampled_width input_data output_data)
           (2 * i + 1) j
         = Some (h1v2_bottom (the (input_data i)) (the (input_data (i + 1))) j)"
proof -
  let ?res = "jsimd_h1v2_fancy_upsample_neon max_v downsampled_width input_data output_data"
  let ?w = "unat downsampled_width"
  from h1v2_correct [OF assms(1)] assms(2,3)
  obtain out where out: "?res = Some out" and ok: "h1v2_pair_ok ?w input_data out i"
    by blast
  from ok obtain cur above below top bottom where p:
    "input_data i = Some cur" "input_data (i - 1) = Some above"
    "input_data (i + 1) = Some below"
    "out (2 * i) = Some top" "out (2 * i + 1) = Some bottom"
    "?w \<le> length top" "?w \<le> length bottom"
    "\<forall>j < ?w. uint (top ! j) = h1v2_top cur above j"
    "\<forall>j < ?w. uint (bottom ! j) = h1v2_bottom cur below j"
    unfolding h1v2_pair_ok_def by blast
  have jt: "j < length top" and jb: "j < length bottom"
    using assms(4) p(6,7) by linarith+
  have "output_sample ?res (2 * i) j = Some (uint (top ! j))"
    by (rule output_sample_Some [OF out p(4) jt])
  moreover have "output_sample ?res (2 * i + 1) j = Some (uint (bottom ! j))"
    by (rule output_sample_Some [OF out p(5) jb])
  ultimately show ?thesis
    using p(8,9) assms(4) by (simp add: p(1,2,3))
qed

subsection \<open>Auxiliary facts for the claims\<close>

lemma interior_index:
  fixes c w :: nat
  assumes "1 \<le> c" "c < w"
  shows "2 * c - 1 \<noteq> 0" "2 * c - 1 \<noteq> 2 * w - 1" "odd (2 * c - 1)"
    "(2 * c - 1) div 2 = c - 1" "(2 * c - 1) div 2 + 1 = c"
    "2 * c \<noteq> 2 * w - 1" "2 * c - 1 < 2 * w" "2 * c < 2 * w"
  using assms by presburger+

lemma ex_h2v2_valid_swapped: "h2v2_valid 2 3 ex_swapped ex_output"
  by (simp add: h2v2_valid_def row_ok_def ex_swapped_def ex_output_def ex_above_def ex_cur_def
      ex_below_def h2v2_in_cap_def h2v2_out_cap_def INT_MAX_def)

lemma ex_h2v2_valid_flat: "h2v2_valid 2 3 ex_flat ex_output"
  by (simp add: h2v2_valid_def row_ok_def ex_flat_def ex_output_def
      h2v2_in_cap_def h2v2_out_cap_def INT_MAX_def)

lemma ex_h1v2_valid_flat: "h1v2_valid 2 3 ex_flat ex_output"
  by (simp add: h1v2_valid_def row_ok_def ex_flat_def ex_output_def h1v2_cap_def INT_MAX_def)

lemma ex_h2v2_valid_width1: "h2v2_valid 2 1 ex_input ex_output"
  by (simp add: h2v2_valid_def row_ok_def ex_input_def ex_output_def ex_above_def ex_cur_def
      ex_below_def h2v2_in_cap_def h2v2_out_cap_def INT_MAX_def)

lemma flat_sixteenths:
  fixes v :: int
  shows "(4 * v * 4 + 8) div 16 = v" "(4 * v * 4 + 7) div 16 = v"
    "(3 * (4 * v) + 4 * v + 7) div 16 = v" "(3 * (4 * v) + 4 * v + 8) div 16 = v"
    "(4 * v + 1) div 4 = v" "(4 * v + 2) div 4 = v"
  by linarith+

lemma interior_columns_in_range:
  fixes j w :: nat
  assumes "j \<noteq> 0" "j \<noteq> 2 * w - 1" "j < 2 * w"
  shows "j div 2 < w" "odd j \<Longrightarrow> j div 2 + 1 < w" "even j \<Longrightarrow> j div 2 - 1 < w"
  using assms by presburger+

lemma h2v2_ref_pixel_flat:
  assumes flat: "\<And>c. c < w \<Longrightarrow> GETJSAMPLE (cur ! c) = v \<and> GETJSAMPLE (nb ! c) = v"
    and j: "j < 2 * w"
  shows "h2v2_ref_pixel w cur nb j = v"
proof -
  have w: "0 < w"
    using j by simp
  have cs: "colsum (cur ! c) (nb ! c) = 4 * v" if "c < w" for c
    using flat [OF that] by (simp add: colsum_def)
  consider "j = 0" | "j \<noteq> 0" "j = 2 * w - 1" | "j \<noteq> 0" "j \<noteq> 2 * w - 1"
    by blast
  then show ?thesis
  proof cases
    case 1
    with cs [of 0] w show ?thesis
      by (simp add: h2v2_ref_pixel_def flat_sixteenths(1))
  next
    case 2
    with cs [of "w - 1"] w show ?thesis
      by (simp add: h2v2_ref_pixel_def flat_sixteenths(2))
  next
    case 3
    note r = interior_columns_in_range [OF 3 j]
    show ?thesis
    proof (cases "odd j")
      case True
      with 3 cs [OF r(1)] cs [OF r(2) [OF True]] show ?thesis
        by (simp add: h2v2_ref_pixel_def h2v2_interior_def flat_sixteenths(3))
    next
      case False
      with 3 cs [OF r(1)] cs [OF r(3)] show ?thesis
        by (simp add: h2v2_ref_pixel_def h2v2_interior_def flat_sixteenths(4))
    qed
  qed
qed

lemma ex_flat_samples:
  "\<forall>c < unat (3 :: JDIMENSION).
     sample ex_flat (0 - 1) c = 200 \<and> sample ex_flat 0 c = 200 \<and> sample ex_flat (0 + 1) c = 200"
  by (simp add: sample_def ex_flat_def GETJSAMPLE_def)

lemma ex_swapped_rows:
  "ex_swapped 0 = ex_input 0" "ex_swapped (0 - 1) = ex_input (0 + 1)"
  "ex_swapped (0 + 1) = ex_input (0 - 1)"
  by (simp_all add: ex_swapped_def ex_input_def)

lemma colsum_bounds: "0 \<le> colsum a b" "colsum a b \<le> 1020"
  using u8_lt [of a] u8_lt [of b] by (simp_all add: colsum_def GETJSAMPLE_def)

lemma uint_wcolsum_colsum: "uint (wcolsum a b) = colsum a b"
  by (simp add: uint_wcolsum colsum_def GETJSAMPLE_def)

lemma uint_blend_p1_colsum:
  "uint (wcolsum b1 b0 + wcolsum a1 a0 * 3 + 7) = 3 * colsum a1 a0 + colsum b1 b0 + 7"
  by (simp add: uint_blend_p1 colsum_def GETJSAMPLE_def)

lemma uint_blend_p2_colsum:
  "uint (wcolsum b1 b0 + wcolsum a1 a0 * 3) = 3 * colsum a1 a0 + colsum b1 b0"
  by (simp add: uint_blend_p2 colsum_def GETJSAMPLE_def)

lemma ex_lanes_length: "length ex_lanes = 16"
  by (simp add: ex_lanes_def)

lemma shift_bounds:
  "(3 * colsum a b + colsum c d + 7) div 16 \<le> 255"
  "(3 * colsum a b + colsum c d + 8) div 16 \<le> 255"
  "(colsum a b * 4 + 8) div 16 \<le> 255" "(colsum a b * 4 + 7) div 16 \<le> 255"
  "(colsum a b + 1) div 4 \<le> 255" "(colsum a b + 2) div 4 \<le> 255"
  using colsum_bounds [of a b] colsum_bounds [of c d] by simp_all

lemma output_row_Some:
  assumes "res = Some out" "out r = Some row" "n \<le> length row"
  shows "output_row res r n = Some (take n row)"
  using assms by (simp add: output_row_def)

lemma take_eq_map:
  fixes row :: JSAMPROW
  assumes "n \<le> length row" "\<forall>j < n. uint (row ! j) = f j"
  shows "take n row = map (\<lambda>j. word_of_int (f j)) [0 ..< n]"
proof (rule nth_equalityI)
  show "length (take n row) = length (map (\<lambda>j. word_of_int (f j)) [0 ..< n])"
    using assms(1) by simp
next
  fix j
  assume "j < length (take n row)"
  with assms(1) have j: "j < n"
    by simp
  with assms(2) have "word_of_int (f j) = (word_of_int (uint (row ! j)) :: JSAMPLE)"
    by simp
  with j show "take n row ! j = map (\<lambda>j. word_of_int (f j)) [0 ..< n] ! j"
    by simp
qed

lemma h2v2_output_rows:
  assumes "h2v2_valid max_v downsampled_width input_data output_data"
    and "0 \<le> i" "2 * i < max_v"
  shows "output_row
           (jsimd_h2v2_fancy_upsample_neon max_v downsampled_width input_data output_data)
           (2 * i) (2 * unat downsampled_width)
         = Some (scalar_h2v2_row (unat downsampled_width) (the (input_data i))
                   (the (input_data (i - 1))))
       \<and> output_row
           (jsimd_h2v2_fancy_upsample_neon max_v downsampled_width input_data output_data)
           (2 * i + 1) (2 * unat downsampled_width)
         = Some (scalar_h2v2_row (unat downsampled_width) (the (input_data i))
                   (the (input_data (i + 1))))"
proof -
  let ?res = "jsimd_h2v2_fancy_upsample_neon max_v downsampled_width input_data output_data"
  let ?w = "unat downsampled_width"
  from h2v2_correct [OF assms(1)] assms(2,3)
  obtain out where out: "?res = Some out" and ok: "h2v2_pair_ok ?w input_data out i"
    by blast
  from ok obtain cur above below top bottom where p:
    "input_data i = Some cur" "input_data (i - 1) = Some above"
    "input_data (i + 1) = Some below"
    "out (2 * i) = Some top" "out (2 * i + 1) = Some bottom"
    "2 * ?w \<le> length top" "2 * ?w \<le> length bottom"
    "\<forall>j < 2 * ?w. uint (top ! j) = h2v2_ref_pixel ?w cur above j"
    "\<forall>j < 2 * ?w. uint (bottom ! j) = h2v2_ref_pixel ?w cur below j"
    unfolding h2v2_pair_ok_def by blast
  have "output_row ?res (2 * i) (2 * ?w) = Some (take (2 * ?w) top)"
    by (rule output_row_Some [OF out p(4,6)])
  moreover have "output_row ?res (2 * i + 1) (2 * ?w) = Some (take (2 * ?w) bottom)"
    by (rule output_row_Some [OF out p(5,7)])
  moreover have "take (2 * ?w) top = scalar_h2v2_row ?w cur above"
    unfolding scalar_h2v2_row_def by (rule take_eq_map [OF p(6,8)])
  moreover have "take (2 * ?w) bottom = scalar_h2v2_row ?w cur below"
    unfolding scalar_h2v2_row_def by (rule take_eq_map [OF p(7,9)])
  ultimately show ?thesis
    by (simp add: p(1,2,3))
qed

lemma h1v2_output_rows:
  assumes "h1v2_valid max_v downsampled_width input_data output_data"
    and "0 \<le> i" "2 * i < max_v"
  shows "output_row
           (jsimd_h1v2_fancy_upsample_neon max_v downsampled_width input_data output_data)
           (2 * i) (unat downsampled_width)
         = Some (spec_h1v2_top_row (unat downsampled_width) (the (input_data i))
                   (the (input_data (i - 1))))
       \<and> output_row
           (jsimd_h1v2_fancy_upsample_neon max_v downsampled_width input_data output_data)
           (2 * i + 1) (unat downsampled_width)
         = Some (spec_h1v2_bottom_row (unat downsampled_width) (the (input_data i))
                   (the (input_data (i + 1))))"
proof -
  let ?res = "jsimd_h1v2_fancy_upsample_neon max_v downsampled_width input_data output_data"
  let ?w = "unat downsampled_width"
  from h1v2_correct [OF assms(1)] assms(2,3)
  obtain out where out: "?res = Some out" and ok: "h1v2_pair_ok ?w input_data out i"
    by blast
  from ok obtain cur above below top bottom where p:
    "input_data i = Some cur" "input_data (i - 1) = Some above"
    "input_data (i + 1) = Some below"
    "out (2 * i) = Some top" "out (2 * i + 1) = Some bottom"
    "?w \<le> length top" "?w \<le> length bottom"
    "\<forall>j < ?w. uint (top ! j) = h1v2_top cur above j"
    "\<forall>j < ?w. uint (bottom ! j) = h1v2_bottom cur below j"
    unfolding h1v2_pair_ok_def by blast
  have "output_row ?res (2 * i) ?w = Some (take ?w top)"
    by (rule output_row_Some [OF out p(4,6)])
  moreover have "output_row ?res (2 * i + 1) ?w = Some (take ?w bottom)"
    by (rule output_row_Some [OF out p(5,7)])
  moreover have "take ?w top = spec_h1v2_top_row ?w cur above"
    using take_eq_map [OF p(6,8)]
    by (simp add: spec_h1v2_top_row_def h1v2_top_def colsum_def)
  moreover have "take ?w bottom = spec_h1v2_bottom_row ?w cur below"
    using take_eq_map [OF p(7,9)]
    by (simp add: spec_h1v2_bottom_row_def h1v2_bottom_def colsum_def)
  ultimately show ?thesis
    by (simp add: p(1,2,3))
qed

text \<open>
  C1, as the code has it. In the h2v2 kernel, for every input row \<open>i\<close> and every column
  boundary \<open>c\<close> with \<open>1 \<le> c < w\<close>, with \<open>s0colsum0 = 3 * in[i][c-1] + in[i-1][c-1]\<close> and
  \<open>s1colsum0 = 3 * in[i][c] + in[i-1][c]\<close>:
  \<open>out_top[2 c - 1] = (3 * s0colsum0 + s1colsum0 + 7) >> 4\<close> and
  \<open>out_top[2 c] = (3 * s1colsum0 + s0colsum0 + 8) >> 4\<close>, and likewise for the bottom row with
  the row below. The weight 3 is on the column that contains the pixel; the claim as
  stated has the two weights exchanged, and fails on the concrete call below.
\<close>

theorem h2v2_interior_columns:
  assumes "h2v2_valid max_v downsampled_width input_data output_data"
    and "0 \<le> i" "2 * i < max_v" "1 \<le> c" "c < unat downsampled_width"
  shows "output_sample
           (jsimd_h2v2_fancy_upsample_neon max_v downsampled_width input_data output_data)
           (2 * i) (2 * c - 1)
         = Some ((3 * vsum input_data i (i - 1) (c - 1) + vsum input_data i (i - 1) c + 7) div 16)
       \<and> output_sample
           (jsimd_h2v2_fancy_upsample_neon max_v downsampled_width input_data output_data)
           (2 * i) (2 * c)
         = Some ((3 * vsum input_data i (i - 1) c + vsum input_data i (i - 1) (c - 1) + 8) div 16)
       \<and> output_sample
           (jsimd_h2v2_fancy_upsample_neon max_v downsampled_width input_data output_data)
           (2 * i + 1) (2 * c - 1)
         = Some ((3 * vsum input_data i (i + 1) (c - 1) + vsum input_data i (i + 1) c + 7) div 16)
       \<and> output_sample
           (jsimd_h2v2_fancy_upsample_neon max_v downsampled_width input_data output_data)
           (2 * i + 1) (2 * c)
         = Some ((3 * vsum input_data i (i + 1) c + vsum input_data i (i + 1) (c - 1) + 8) div 16)"
proof -
  note ix = interior_index [OF assms(4,5)]
  have odd_px: "h2v2_ref_pixel (unat downsampled_width) cur nb (2 * c - 1)
      = (3 * colsum (cur ! (c - 1)) (nb ! (c - 1)) + colsum (cur ! c) (nb ! c) + 7) div 16"
    for cur nb
    using ix(1,2,3,4,5) by (simp add: h2v2_ref_pixel_def h2v2_interior_def)
  have even_px: "h2v2_ref_pixel (unat downsampled_width) cur nb (2 * c)
      = (3 * colsum (cur ! c) (nb ! c) + colsum (cur ! (c - 1)) (nb ! (c - 1)) + 8) div 16"
    for cur nb
    using ix(6) assms(4) by (simp add: h2v2_ref_pixel_def h2v2_interior_def)
  from h2v2_output_sample [OF assms(1,2,3) ix(7), unfolded odd_px]
    h2v2_output_sample [OF assms(1,2,3) ix(8), unfolded even_px]
  show ?thesis
    by (simp add: vsum_def sample_def colsum_def)
qed

theorem h2v2_interior_columns_witness:
  "h2v2_valid 2 3 ex_input ex_output \<and> (0::int) \<le> 0 \<and> 2 * 0 < (2::int)
   \<and> (1::nat) \<le> 1 \<and> 1 < unat (3 :: JDIMENSION)
   \<and> output_sample (jsimd_h2v2_fancy_upsample_neon 2 3 ex_input ex_output) (2 * 0) (2 * 1 - 1)
       = Some ((3 * vsum ex_input 0 (0 - 1) (1 - 1) + vsum ex_input 0 (0 - 1) 1 + 7) div 16)
   \<and> output_sample (jsimd_h2v2_fancy_upsample_neon 2 3 ex_input ex_output) (2 * 0) (2 * 1)
       = Some ((3 * vsum ex_input 0 (0 - 1) 1 + vsum ex_input 0 (0 - 1) (1 - 1) + 8) div 16)"
  using h2v2_interior_columns [of 2 3 ex_input ex_output 0 1] ex_h2v2_valid by simp

theorem h2v2_interior_columns_counterexample:
  "h2v2_valid 2 3 ex_input ex_output
   \<and> output_sample (jsimd_h2v2_fancy_upsample_neon 2 3 ex_input ex_output) (2 * 0) (2 * 1 - 1)
       = Some 35
   \<and> (3 * vsum ex_input 0 (0 - 1) 1 + vsum ex_input 0 (0 - 1) (1 - 1) + 7) div 16 = 40"
proof (intro conjI)
  show "h2v2_valid 2 3 ex_input ex_output"
    by (rule ex_h2v2_valid)
  show "output_sample (jsimd_h2v2_fancy_upsample_neon 2 3 ex_input ex_output) (2 * 0) (2 * 1 - 1)
       = Some 35"
    by code_simp
  show "(3 * vsum ex_input 0 (0 - 1) 1 + vsum ex_input 0 (0 - 1) (1 - 1) + 7) div 16 = 40"
    by code_simp
qed

text \<open>
  C2. For every valid call, the logical-width prefix of each output row of the
  vectorized kernels is bit-identical to the row of a scalar implementation: for h1v2
  the scalar row of section 4.2, for h2v2 the scalar row with the boundary formulas of
  section 4.1 and, in the interior, weight 3 on the input column that contains the
  pixel and weight 1 on the adjacent one. (The interior formulas as section 4.1
  writes them exchange the two weights; the kernel does not produce those rows.)
\<close>

theorem kernels_match_scalar_rows:
  "(h2v2_valid max_v downsampled_width input_data output_data \<and> 0 \<le> i \<and> 2 * i < max_v
    \<longrightarrow> output_row
          (jsimd_h2v2_fancy_upsample_neon max_v downsampled_width input_data output_data)
          (2 * i) (2 * unat downsampled_width)
        = Some (scalar_h2v2_row (unat downsampled_width) (the (input_data i))
                  (the (input_data (i - 1))))
      \<and> output_row
          (jsimd_h2v2_fancy_upsample_neon max_v downsampled_width input_data output_data)
          (2 * i + 1) (2 * unat downsampled_width)
        = Some (scalar_h2v2_row (unat downsampled_width) (the (input_data i))
                  (the (input_data (i + 1)))))
   \<and> (h1v2_valid max_v downsampled_width input_data output_data \<and> 0 \<le> i \<and> 2 * i < max_v
    \<longrightarrow> output_row
          (jsimd_h1v2_fancy_upsample_neon max_v downsampled_width input_data output_data)
          (2 * i) (unat downsampled_width)
        = Some (spec_h1v2_top_row (unat downsampled_width) (the (input_data i))
                  (the (input_data (i - 1))))
      \<and> output_row
          (jsimd_h1v2_fancy_upsample_neon max_v downsampled_width input_data output_data)
          (2 * i + 1) (unat downsampled_width)
        = Some (spec_h1v2_bottom_row (unat downsampled_width) (the (input_data i))
                  (the (input_data (i + 1)))))"
  using h2v2_output_rows [of max_v downsampled_width input_data output_data i]
    h1v2_output_rows [of max_v downsampled_width input_data output_data i]
  by blast

theorem kernels_match_scalar_rows_witness:
  "h2v2_valid 2 3 ex_input ex_output \<and> h1v2_valid 2 3 ex_input ex_output
   \<and> (0::int) \<le> 0 \<and> 2 * 0 < (2::int)
   \<and> output_row (jsimd_h2v2_fancy_upsample_neon 2 3 ex_input ex_output) (2 * 0)
        (2 * unat (3 :: JDIMENSION))
       = Some (scalar_h2v2_row (unat (3 :: JDIMENSION)) (the (ex_input 0))
                 (the (ex_input (0 - 1))))
   \<and> output_row (jsimd_h1v2_fancy_upsample_neon 2 3 ex_input ex_output) (2 * 0 + 1)
        (unat (3 :: JDIMENSION))
       = Some (spec_h1v2_bottom_row (unat (3 :: JDIMENSION)) (the (ex_input 0))
                 (the (ex_input (0 + 1))))"
  using kernels_match_scalar_rows [of 2 3 ex_input ex_output 0]
    ex_h2v2_valid ex_h1v2_valid
  by simp

theorem kernels_match_scalar_rows_counterexample:
  "h2v2_valid 2 3 ex_input ex_output
   \<and> output_row (jsimd_h2v2_fancy_upsample_neon 2 3 ex_input ex_output) 0 6
       = Some [33, 35, 40, 45, 50, 52]
   \<and> spec_h2v2_row 3 ex_cur ex_above = [33, 40, 35, 50, 45, 52]"
proof (intro conjI)
  show "h2v2_valid 2 3 ex_input ex_output"
    by (rule ex_h2v2_valid)
  show "output_row (jsimd_h2v2_fancy_upsample_neon 2 3 ex_input ex_output) 0 6
       = Some [33, 35, 40, 45, 50, 52]"
    by code_simp
  show "spec_h2v2_row 3 ex_cur ex_above = [33, 40, 35, 50, 45, 52]"
    by code_simp
qed

text \<open>
  C3. In the h2v2 kernel, for every input row \<open>i\<close>, the last pixel of the two output
  rows uses the last input column \<open>w - 1\<close> and the bias 7:
  \<open>out_top[2 w - 1] = ((3 * in[i][w-1] + in[i-1][w-1]) * 4 + 7) >> 4\<close> and
  \<open>out_bottom[2 w - 1] = ((3 * in[i][w-1] + in[i+1][w-1]) * 4 + 7) >> 4\<close>.
\<close>

theorem h2v2_last_column:
  assumes "h2v2_valid max_v downsampled_width input_data output_data"
    and "0 \<le> i" "2 * i < max_v"
  shows "output_sample
           (jsimd_h2v2_fancy_upsample_neon max_v downsampled_width input_data output_data)
           (2 * i) (2 * unat downsampled_width - 1)
         = Some ((vsum input_data i (i - 1) (unat downsampled_width - 1) * 4 + 7) div 16)
       \<and> output_sample
           (jsimd_h2v2_fancy_upsample_neon max_v downsampled_width input_data output_data)
           (2 * i + 1) (2 * unat downsampled_width - 1)
         = Some ((vsum input_data i (i + 1) (unat downsampled_width - 1) * 4 + 7) div 16)"
proof -
  have w: "0 < unat downsampled_width"
    using assms(1) by (simp add: h2v2_valid_def)
  then have "2 * unat downsampled_width - 1 < 2 * unat downsampled_width"
    and "2 * unat downsampled_width - 1 \<noteq> 0"
    by linarith+
  from h2v2_output_sample [OF assms this(1)] this(2) show ?thesis
    by (simp add: h2v2_ref_pixel_def vsum_def sample_def colsum_def)
qed

theorem h2v2_last_column_witness:
  "h2v2_valid 2 3 ex_input ex_output \<and> (0::int) \<le> 0 \<and> 2 * 0 < (2::int)
   \<and> output_sample (jsimd_h2v2_fancy_upsample_neon 2 3 ex_input ex_output) (2 * 0)
         (2 * unat (3 :: JDIMENSION) - 1)
       = Some ((vsum ex_input 0 (0 - 1) (unat (3 :: JDIMENSION) - 1) * 4 + 7) div 16)
   \<and> output_sample (jsimd_h2v2_fancy_upsample_neon 2 3 ex_input ex_output) (2 * 0 + 1)
         (2 * unat (3 :: JDIMENSION) - 1)
       = Some ((vsum ex_input 0 (0 + 1) (unat (3 :: JDIMENSION) - 1) * 4 + 7) div 16)"
  using h2v2_last_column [of 2 3 ex_input ex_output 0] ex_h2v2_valid by simp

text \<open>
  C4. In the h2v2 kernel, for every input row \<open>i\<close>, the first pixel of the two output
  rows is \<open>out_top[0] = ((3 * in[i][0] + in[i-1][0]) * 4 + 8) >> 4\<close> and
  \<open>out_bottom[0] = ((3 * in[i][0] + in[i+1][0]) * 4 + 8) >> 4\<close>.
\<close>

theorem h2v2_first_column:
  assumes "h2v2_valid max_v downsampled_width input_data output_data"
    and "0 \<le> i" "2 * i < max_v"
  shows "output_sample
           (jsimd_h2v2_fancy_upsample_neon max_v downsampled_width input_data output_data)
           (2 * i) 0
         = Some ((vsum input_data i (i - 1) 0 * 4 + 8) div 16)
       \<and> output_sample
           (jsimd_h2v2_fancy_upsample_neon max_v downsampled_width input_data output_data)
           (2 * i + 1) 0
         = Some ((vsum input_data i (i + 1) 0 * 4 + 8) div 16)"
proof -
  have "0 < 2 * unat downsampled_width"
    using assms(1) by (simp add: h2v2_valid_def)
  from h2v2_output_sample [OF assms this] show ?thesis
    by (simp add: h2v2_ref_pixel_def vsum_def sample_def colsum_def)
qed

theorem h2v2_first_column_witness:
  "h2v2_valid 2 3 ex_input ex_output \<and> (0::int) \<le> 0 \<and> 2 * 0 < (2::int)
   \<and> output_sample (jsimd_h2v2_fancy_upsample_neon 2 3 ex_input ex_output) (2 * 0) 0
       = Some ((vsum ex_input 0 (0 - 1) 0 * 4 + 8) div 16)
   \<and> output_sample (jsimd_h2v2_fancy_upsample_neon 2 3 ex_input ex_output) (2 * 0 + 1) 0
       = Some ((vsum ex_input 0 (0 + 1) 0 * 4 + 8) div 16)"
  using h2v2_first_column [of 2 3 ex_input ex_output 0] ex_h2v2_valid by simp

text \<open>
  C5. In the h1v2 kernel, for every input row \<open>i\<close> and every column \<open>c\<close> below the
  width, \<open>out_top[c] = (3 * in[i][c] + in[i-1][c] + 1) >> 2\<close> and
  \<open>out_bottom[c] = (3 * in[i][c] + in[i+1][c] + 2) >> 2\<close>; the first and the last
  column are no exception.
\<close>

theorem h1v2_columns:
  assumes "h1v2_valid max_v downsampled_width input_data output_data"
    and "0 \<le> i" "2 * i < max_v" "c < unat downsampled_width"
  shows "output_sample
           (jsimd_h1v2_fancy_upsample_neon max_v downsampled_width input_data output_data)
           (2 * i) c
         = Some ((3 * sample input_data i c + sample input_data (i - 1) c + 1) div 4)
       \<and> output_sample
           (jsimd_h1v2_fancy_upsample_neon max_v downsampled_width input_data output_data)
           (2 * i + 1) c
         = Some ((3 * sample input_data i c + sample input_data (i + 1) c + 2) div 4)"
  using h1v2_output_sample [OF assms]
  by (simp add: h1v2_top_def h1v2_bottom_def sample_def colsum_def)

theorem h1v2_columns_witness:
  "h1v2_valid 2 3 ex_input ex_output \<and> (0::int) \<le> 0 \<and> 2 * 0 < (2::int)
   \<and> (2::nat) < unat (3 :: JDIMENSION)
   \<and> output_sample (jsimd_h1v2_fancy_upsample_neon 2 3 ex_input ex_output) (2 * 0) 2
       = Some ((3 * sample ex_input 0 2 + sample ex_input (0 - 1) 2 + 1) div 4)
   \<and> output_sample (jsimd_h1v2_fancy_upsample_neon 2 3 ex_input ex_output) (2 * 0 + 1) 2
       = Some ((3 * sample ex_input 0 2 + sample ex_input (0 + 1) 2 + 2) div 4)"
  using h1v2_columns [of 2 3 ex_input ex_output 0 2] ex_h1v2_valid by simp

text \<open>
  C6. For width 1 the two logical pixels of each output row are the boundary values:
  pixel 0 is the first-pixel formula (bias 8) and pixel 1 the last-pixel formula
  (bias 7), on the single input column. The column loop does not run; what the vector
  block stored at index 1 is overwritten by the last-pixel store.
\<close>

theorem h2v2_width_one:
  assumes "h2v2_valid max_v 1 input_data output_data"
    and "0 \<le> i" "2 * i < max_v"
  shows "output_sample (jsimd_h2v2_fancy_upsample_neon max_v 1 input_data output_data) (2 * i) 0
         = Some ((vsum input_data i (i - 1) 0 * 4 + 8) div 16)
       \<and> output_sample (jsimd_h2v2_fancy_upsample_neon max_v 1 input_data output_data) (2 * i) 1
         = Some ((vsum input_data i (i - 1) 0 * 4 + 7) div 16)
       \<and> output_sample (jsimd_h2v2_fancy_upsample_neon max_v 1 input_data output_data)
           (2 * i + 1) 0
         = Some ((vsum input_data i (i + 1) 0 * 4 + 8) div 16)
       \<and> output_sample (jsimd_h2v2_fancy_upsample_neon max_v 1 input_data output_data)
           (2 * i + 1) 1
         = Some ((vsum input_data i (i + 1) 0 * 4 + 7) div 16)
       \<and> h2v2_cols 1 inptr0 inptr1 inptr2 16 outptr0 outptr1 = Some (outptr0, outptr1)"
proof -
  have j: "(0::nat) < 2 * unat (1 :: JDIMENSION)" "(1::nat) < 2 * unat (1 :: JDIMENSION)"
    by simp_all
  have "h2v2_cols 1 inptr0 inptr1 inptr2 16 outptr0 outptr1 = Some (outptr0, outptr1)"
    by (subst h2v2_cols.simps) simp
  with h2v2_output_sample [OF assms j(1)] h2v2_output_sample [OF assms j(2)]
  show ?thesis
    by (simp add: h2v2_ref_pixel_def vsum_def sample_def colsum_def)
qed

theorem h2v2_width_one_witness:
  "h2v2_valid 2 1 ex_input ex_output \<and> (0::int) \<le> 0 \<and> 2 * 0 < (2::int)
   \<and> output_sample (jsimd_h2v2_fancy_upsample_neon 2 1 ex_input ex_output) (2 * 0) 0
       = Some ((vsum ex_input 0 (0 - 1) 0 * 4 + 8) div 16)
   \<and> output_sample (jsimd_h2v2_fancy_upsample_neon 2 1 ex_input ex_output) (2 * 0) 1
       = Some ((vsum ex_input 0 (0 - 1) 0 * 4 + 7) div 16)"
  using h2v2_width_one [of 2 ex_input ex_output 0] ex_h2v2_valid_width1 by simp

text \<open>
  C7. For both kernels, if every sample of the three context rows of input row \<open>i\<close>
  equals \<open>v\<close>, every pixel of the two output rows produced for \<open>i\<close> equals \<open>v\<close>.
\<close>

theorem flat_input_gives_flat_output:
  "(h2v2_valid max_v downsampled_width input_data output_data \<and> 0 \<le> i \<and> 2 * i < max_v
      \<and> (\<forall>c < unat downsampled_width.
            sample input_data (i - 1) c = v \<and> sample input_data i c = v
              \<and> sample input_data (i + 1) c = v)
      \<and> j < 2 * unat downsampled_width
    \<longrightarrow> output_sample
          (jsimd_h2v2_fancy_upsample_neon max_v downsampled_width input_data output_data)
          (2 * i) j = Some v
      \<and> output_sample
          (jsimd_h2v2_fancy_upsample_neon max_v downsampled_width input_data output_data)
          (2 * i + 1) j = Some v)
   \<and> (h1v2_valid max_v downsampled_width input_data output_data \<and> 0 \<le> i \<and> 2 * i < max_v
      \<and> (\<forall>c < unat downsampled_width.
            sample input_data (i - 1) c = v \<and> sample input_data i c = v
              \<and> sample input_data (i + 1) c = v)
      \<and> k < unat downsampled_width
    \<longrightarrow> output_sample
          (jsimd_h1v2_fancy_upsample_neon max_v downsampled_width input_data output_data)
          (2 * i) k = Some v
      \<and> output_sample
          (jsimd_h1v2_fancy_upsample_neon max_v downsampled_width input_data output_data)
          (2 * i + 1) k = Some v)"
proof (intro conjI impI)
  assume a: "h2v2_valid max_v downsampled_width input_data output_data \<and> 0 \<le> i \<and> 2 * i < max_v
      \<and> (\<forall>c < unat downsampled_width.
            sample input_data (i - 1) c = v \<and> sample input_data i c = v
              \<and> sample input_data (i + 1) c = v)
      \<and> j < 2 * unat downsampled_width"
  then have flat: "GETJSAMPLE (the (input_data (i - 1)) ! c) = v"
    "GETJSAMPLE (the (input_data i) ! c) = v" "GETJSAMPLE (the (input_data (i + 1)) ! c) = v"
    if "c < unat downsampled_width" for c
    using that by (simp_all add: sample_def)
  from a have v: "h2v2_valid max_v downsampled_width input_data output_data"
    and i: "0 \<le> i" "2 * i < max_v" and j: "j < 2 * unat downsampled_width"
    by simp_all
  have "h2v2_ref_pixel (unat downsampled_width) (the (input_data i)) (the (input_data (i - 1))) j = v"
    by (rule h2v2_ref_pixel_flat [OF _ j]) (simp add: flat)
  moreover
  have "h2v2_ref_pixel (unat downsampled_width) (the (input_data i)) (the (input_data (i + 1))) j = v"
    by (rule h2v2_ref_pixel_flat [OF _ j]) (simp add: flat)
  ultimately
  show "output_sample
          (jsimd_h2v2_fancy_upsample_neon max_v downsampled_width input_data output_data)
          (2 * i) j = Some v"
    and "output_sample
          (jsimd_h2v2_fancy_upsample_neon max_v downsampled_width input_data output_data)
          (2 * i + 1) j = Some v"
    using h2v2_output_sample [OF v i j] by simp_all
next
  assume a: "h1v2_valid max_v downsampled_width input_data output_data \<and> 0 \<le> i \<and> 2 * i < max_v
      \<and> (\<forall>c < unat downsampled_width.
            sample input_data (i - 1) c = v \<and> sample input_data i c = v
              \<and> sample input_data (i + 1) c = v)
      \<and> k < unat downsampled_width"
  then have v: "h1v2_valid max_v downsampled_width input_data output_data"
    and i: "0 \<le> i" "2 * i < max_v" and k: "k < unat downsampled_width"
    by simp_all
  from a k have flat: "GETJSAMPLE (the (input_data (i - 1)) ! k) = v"
    "GETJSAMPLE (the (input_data i) ! k) = v" "GETJSAMPLE (the (input_data (i + 1)) ! k) = v"
    by (simp_all add: sample_def)
  show "output_sample
          (jsimd_h1v2_fancy_upsample_neon max_v downsampled_width input_data output_data)
          (2 * i) k = Some v"
    and "output_sample
          (jsimd_h1v2_fancy_upsample_neon max_v downsampled_width input_data output_data)
          (2 * i + 1) k = Some v"
    using h1v2_output_sample [OF v i k]
    by (simp_all add: h1v2_top_def h1v2_bottom_def colsum_def flat flat_sixteenths)
qed

theorem flat_input_gives_flat_output_witness:
  "h2v2_valid 2 3 ex_flat ex_output \<and> (0::int) \<le> 0 \<and> 2 * 0 < (2::int)
   \<and> sample ex_flat (0 - 1) 0 = 200 \<and> sample ex_flat 0 0 = 200 \<and> sample ex_flat (0 + 1) 0 = 200
   \<and> sample ex_flat (0 - 1) 1 = 200 \<and> sample ex_flat 0 1 = 200 \<and> sample ex_flat (0 + 1) 1 = 200
   \<and> sample ex_flat (0 - 1) 2 = 200 \<and> sample ex_flat 0 2 = 200 \<and> sample ex_flat (0 + 1) 2 = 200
   \<and> (5::nat) < 2 * unat (3 :: JDIMENSION)
   \<and> output_sample (jsimd_h2v2_fancy_upsample_neon 2 3 ex_flat ex_output) (2 * 0) 5 = Some 200
   \<and> output_sample (jsimd_h2v2_fancy_upsample_neon 2 3 ex_flat ex_output) (2 * 0 + 1) 5
       = Some 200
   \<and> h1v2_valid 2 3 ex_flat ex_output
   \<and> (2::nat) < unat (3 :: JDIMENSION)
   \<and> output_sample (jsimd_h1v2_fancy_upsample_neon 2 3 ex_flat ex_output) (2 * 0) 2 = Some 200
   \<and> output_sample (jsimd_h1v2_fancy_upsample_neon 2 3 ex_flat ex_output) (2 * 0 + 1) 2
       = Some 200"
proof -
  have s: "sample ex_flat (0 - 1) c = 200" "sample ex_flat 0 c = 200"
    "sample ex_flat (0 + 1) c = 200" if "c < 3" for c
    using that by (simp_all add: sample_def ex_flat_def GETJSAMPLE_def)
  from flat_input_gives_flat_output [of 2 3 ex_flat ex_output 0 200 5 2]
    ex_h2v2_valid_flat ex_h1v2_valid_flat ex_flat_samples
  show ?thesis
    by (simp add: s)
qed

text \<open>
  C8. In the h2v2 kernel every intermediate sum fits in 16 bits: each lane of a
  vertical blend holds \<open>3 * r1 + r0\<close>, at most 1020, and each lane before the shift
  holds the horizontal blend of two such sums (plus the bias 7 on the odd pixels),
  computed without wrapping; with the rounding bias 8 the value is still below
  \<open>2 ^ 16\<close>, as is a boundary column sum times 4 plus its bias.
\<close>

theorem h2v2_sums_fit_16_bits:
  assumes "length s0r0 = 16" "length s0r1 = 16" "length s0r2 = 16"
    and "length s1r0 = 16" "length s1r1 = 16" "length s1r2 = 16"
    and "m < 16"
  shows "(let cs = h2v2_step1 s0r0 s0r1 s0r2 s1r0 s1r1 s1r2; b = h2v2_step2 cs in
     uint ((s0colsum0_l cs @ s0colsum0_h cs) ! m) = colsum (s0r1 ! m) (s0r0 ! m)
     \<and> uint ((s0colsum1_l cs @ s0colsum1_h cs) ! m) = colsum (s0r1 ! m) (s0r2 ! m)
     \<and> uint ((s1colsum0_l cs @ s1colsum0_h cs) ! m) = colsum (s1r1 ! m) (s1r0 ! m)
     \<and> uint ((s1colsum1_l cs @ s1colsum1_h cs) ! m) = colsum (s1r1 ! m) (s1r2 ! m)
     \<and> uint ((output0_p1_l b @ output0_p1_h b) ! m)
         = 3 * colsum (s0r1 ! m) (s0r0 ! m) + colsum (s1r1 ! m) (s1r0 ! m) + 7
     \<and> uint ((output0_p2_l b @ output0_p2_h b) ! m)
         = 3 * colsum (s1r1 ! m) (s1r0 ! m) + colsum (s0r1 ! m) (s0r0 ! m)
     \<and> uint ((output1_p1_l b @ output1_p1_h b) ! m)
         = 3 * colsum (s0r1 ! m) (s0r2 ! m) + colsum (s1r1 ! m) (s1r2 ! m) + 7
     \<and> uint ((output1_p2_l b @ output1_p2_h b) ! m)
         = 3 * colsum (s1r1 ! m) (s1r2 ! m) + colsum (s0r1 ! m) (s0r2 ! m))
   \<and> colsum p q \<le> 3 * 255 + 255
   \<and> 3 * colsum p q + colsum r s + 8 < 2 ^ 16
   \<and> colsum p q * 4 + 8 < 2 ^ 16"
proof -
  note l1 = step1_lanes [OF assms]
  note l2 = step2_lanes [OF assms]
  have "colsum p q \<le> 3 * 255 + 255" "3 * colsum p q + colsum r s + 8 < 2 ^ 16"
    "colsum p q * 4 + 8 < 2 ^ 16"
    using colsum_bounds [of p q] colsum_bounds [of r s] by simp_all
  then show ?thesis
    unfolding Let_def l1 l2 uint_wcolsum_colsum uint_blend_p1_colsum uint_blend_p2_colsum
    by simp
qed

theorem h2v2_sums_fit_16_bits_witness:
  "length ex_lanes = 16 \<and> (15::nat) < 16
   \<and> uint ((s0colsum0_l (h2v2_step1 ex_lanes ex_lanes ex_lanes ex_lanes ex_lanes ex_lanes) @
            s0colsum0_h (h2v2_step1 ex_lanes ex_lanes ex_lanes ex_lanes ex_lanes ex_lanes)) ! 15)
       = colsum (ex_lanes ! 15) (ex_lanes ! 15)
   \<and> uint ((output0_p1_l (h2v2_step2
               (h2v2_step1 ex_lanes ex_lanes ex_lanes ex_lanes ex_lanes ex_lanes)) @
            output0_p1_h (h2v2_step2
               (h2v2_step1 ex_lanes ex_lanes ex_lanes ex_lanes ex_lanes ex_lanes))) ! 15)
       = 3 * colsum (ex_lanes ! 15) (ex_lanes ! 15) + colsum (ex_lanes ! 15) (ex_lanes ! 15) + 7
   \<and> colsum 255 255 \<le> 3 * 255 + 255
   \<and> 3 * colsum 255 255 + colsum 255 255 + 8 < 2 ^ 16"
proof -
  have m: "(15::nat) < 16"
    by simp
  note t = h2v2_sums_fit_16_bits [OF ex_lanes_length ex_lanes_length ex_lanes_length
      ex_lanes_length ex_lanes_length ex_lanes_length m, of 255 255 255 255, unfolded Let_def]
  from t ex_lanes_length m show ?thesis
    by (intro conjI) (elim conjE, assumption)+
qed

text \<open>
  C9. The h2v2 kernel is symmetric in its vertical context: if two calls agree on
  input row \<open>i\<close> and have the row above and the row below exchanged, the bottom output
  row of one is, pixel by pixel, the top output row of the other.
\<close>

theorem h2v2_vertical_symmetry:
  assumes "h2v2_valid max_v downsampled_width input_a output_a"
    and "h2v2_valid max_v downsampled_width input_b output_b"
    and "0 \<le> i" "2 * i < max_v"
    and "input_b i = input_a i" "input_b (i - 1) = input_a (i + 1)"
      "input_b (i + 1) = input_a (i - 1)"
    and "j < 2 * unat downsampled_width"
  shows "output_sample (jsimd_h2v2_fancy_upsample_neon max_v downsampled_width input_a output_a)
           (2 * i + 1) j
         = output_sample (jsimd_h2v2_fancy_upsample_neon max_v downsampled_width input_b output_b)
           (2 * i) j
       \<and> output_sample (jsimd_h2v2_fancy_upsample_neon max_v downsampled_width input_a output_a)
           (2 * i) j
         = output_sample (jsimd_h2v2_fancy_upsample_neon max_v downsampled_width input_b output_b)
           (2 * i + 1) j
       \<and> output_sample (jsimd_h2v2_fancy_upsample_neon max_v downsampled_width input_a output_a)
           (2 * i + 1) j \<noteq> None
       \<and> output_sample (jsimd_h2v2_fancy_upsample_neon max_v downsampled_width input_a output_a)
           (2 * i) j \<noteq> None"
  using h2v2_output_sample [OF assms(1,3,4,8)] h2v2_output_sample [OF assms(2,3,4,8)]
  by (simp add: assms(5,6,7))

theorem h2v2_vertical_symmetry_witness:
  "h2v2_valid 2 3 ex_input ex_output \<and> h2v2_valid 2 3 ex_swapped ex_output
   \<and> (0::int) \<le> 0 \<and> 2 * 0 < (2::int)
   \<and> ex_swapped 0 = ex_input 0 \<and> ex_swapped (0 - 1) = ex_input (0 + 1)
   \<and> ex_swapped (0 + 1) = ex_input (0 - 1)
   \<and> (1::nat) < 2 * unat (3 :: JDIMENSION)
   \<and> output_sample (jsimd_h2v2_fancy_upsample_neon 2 3 ex_input ex_output) (2 * 0 + 1) 1
       = output_sample (jsimd_h2v2_fancy_upsample_neon 2 3 ex_swapped ex_output) (2 * 0) 1
   \<and> output_sample (jsimd_h2v2_fancy_upsample_neon 2 3 ex_input ex_output) (2 * 0 + 1) 1
       \<noteq> None"
proof -
  have j: "(1::nat) < 2 * unat (3 :: JDIMENSION)"
    by simp
  have i: "(0::int) \<le> 0" "2 * 0 < (2::int)"
    by simp_all
  note sym = h2v2_vertical_symmetry [OF ex_h2v2_valid ex_h2v2_valid_swapped i ex_swapped_rows j]
  from sym ex_h2v2_valid ex_h2v2_valid_swapped ex_swapped_rows i j show ?thesis
    by (intro conjI) (elim conjE, assumption)+
qed

text \<open>
  C10. Every value produced by a right shift in either kernel is at most 255, so the
  narrowing to 8 bits keeps it: each lane of the four h2v2 pixel registers and the two
  h1v2 pixel registers, and each boundary pixel of the h2v2 kernel, is the shifted
  integer value itself.
\<close>

theorem shift_results_fit_8_bits:
  assumes "length s0r0 = 16" "length s0r1 = 16" "length s0r2 = 16"
    and "length s1r0 = 16" "length s1r1 = 16" "length s1r2 = 16"
    and "m < 16"
  shows "(let b = h2v2_step2 (h2v2_step1 s0r0 s0r1 s0r2 s1r0 s1r1 s1r2) in
     uint (fst (h2v2_output_pixels0 b) ! m)
       = (3 * colsum (s0r1 ! m) (s0r0 ! m) + colsum (s1r1 ! m) (s1r0 ! m) + 7) div 16
     \<and> uint (snd (h2v2_output_pixels0 b) ! m)
       = (3 * colsum (s1r1 ! m) (s1r0 ! m) + colsum (s0r1 ! m) (s0r0 ! m) + 8) div 16
     \<and> uint (fst (h2v2_output_pixels1 b) ! m)
       = (3 * colsum (s0r1 ! m) (s0r2 ! m) + colsum (s1r1 ! m) (s1r2 ! m) + 7) div 16
     \<and> uint (snd (h2v2_output_pixels1 b) ! m)
       = (3 * colsum (s1r1 ! m) (s1r2 ! m) + colsum (s0r1 ! m) (s0r2 ! m) + 8) div 16)
   \<and> uint (fst (h1v2_pixels s0r0 s0r1 s0r2) ! m) = (colsum (s0r1 ! m) (s0r0 ! m) + 1) div 4
   \<and> uint (snd (h1v2_pixels s0r0 s0r1 s0r2) ! m) = (colsum (s0r1 ! m) (s0r2 ! m) + 2) div 4
   \<and> uint (h2v2_first_pixel p q) = (colsum p q * 4 + 8) div 16
   \<and> uint (h2v2_last_pixel p q) = (colsum p q * 4 + 7) div 16
   \<and> (3 * colsum p q + colsum r s + 7) div 16 \<le> 255
   \<and> (3 * colsum p q + colsum r s + 8) div 16 \<le> 255
   \<and> (colsum p q * 4 + 8) div 16 \<le> 255
   \<and> (colsum p q * 4 + 7) div 16 \<le> 255
   \<and> (colsum p q + 1) div 4 \<le> 255
   \<and> (colsum p q + 2) div 4 \<le> 255"
  unfolding Let_def h2v2_pixels_lanes [OF assms]
    h1v2_pixels_lanes [OF assms(1,2,3,7)] uint_first_pixel uint_last_pixel
  by (simp add: shift_bounds)

theorem shift_results_fit_8_bits_witness:
  "length ex_lanes = 16 \<and> (15::nat) < 16
   \<and> uint (snd (h2v2_output_pixels0 (h2v2_step2
        (h2v2_step1 ex_lanes ex_lanes ex_lanes ex_lanes ex_lanes ex_lanes))) ! 15)
       = (3 * colsum (ex_lanes ! 15) (ex_lanes ! 15) + colsum (ex_lanes ! 15) (ex_lanes ! 15) + 8)
           div 16
   \<and> uint (snd (h1v2_pixels ex_lanes ex_lanes ex_lanes) ! 15)
       = (colsum (ex_lanes ! 15) (ex_lanes ! 15) + 2) div 4
   \<and> (3 * colsum 255 255 + colsum 255 255 + 8) div 16 \<le> 255
   \<and> (colsum 255 255 + 2) div 4 \<le> 255"
proof -
  have m: "(15::nat) < 16"
    by simp
  note t = shift_results_fit_8_bits [OF ex_lanes_length ex_lanes_length ex_lanes_length
      ex_lanes_length ex_lanes_length ex_lanes_length m, of 255 255 255 255, unfolded Let_def]
  from t ex_lanes_length m show ?thesis
    by (intro conjI) (elim conjE, assumption)+
qed

end
